theory Spec2Isabelle
  imports Complex_Main "HOL-Library.Multiset"
begin

section \<open>Exceptions of the Python code as values\<close>

text \<open>
  Every raise that the functions of \<^verbatim>\<open>sequence_models/data.py\<close> below can reach is
  one of Python's built-in exceptions (\<open>RuntimeError\<close> is what \<^verbatim>\<open>torch.stack\<close> raises),
  or the tokenizer's \<open>UnknownSymbolError\<close>. A function that can raise returns
  \<open>error + 'a\<close>, with \<open>Inl\<close> for the exception.
\<close>

datatype error =
    ValueError | IndexError | RuntimeError | AssertionError | ZeroDivisionError
  | UnknownSymbolError

section \<open>ApproxBatchSampler\<close>

text \<open>
  \<^verbatim>\<open>ApproxBatchSampler.__iter__\<close> is a generator: it yields batches while it consumes
  the index stream of the wrapped sampler. The model returns the list of the batches
  yielded, in order, together with the way the generator ended: \<open>None\<close> when the stream
  was exhausted, \<open>Some e\<close> when exception \<open>e\<close> escaped (the batches yielded before it were
  still handed to the consumer).

  \<open>sample_lengths\<close> is a list indexed by dataset index; an index beyond its end raises
  \<open>IndexError\<close>. Dataset indices are natural numbers, lengths and both budgets are
  Python integers.

  The arguments \<open>batch\<close> and \<open>len\<close> are the loop's local variables \<^verbatim>\<open>batch\<close> and
  \<^verbatim>\<open>length\<close>; the stream argument is what is left of \<^verbatim>\<open>self.sampler\<close>.
\<close>

fun approx_loop ::
  "int list \<Rightarrow> int \<Rightarrow> int \<Rightarrow> nat list \<Rightarrow> nat list \<Rightarrow> int \<Rightarrow> nat list list \<times> error option" where
  "approx_loop sample_lengths max_tokens max_batch [] batch len = ([], None)"
| "approx_loop sample_lengths max_tokens max_batch (idx # rest) batch len =
     (if length sample_lengths \<le> idx then ([], Some IndexError)
      else
        let this_length = sample_lengths ! idx in
        if (int (length batch) + 1) * max len this_length \<le> max_tokens then
          (let batch' = batch @ [idx]; len' = max len this_length in
           if int (length batch') = max_batch then
             (case approx_loop sample_lengths max_tokens max_batch rest [] 0 of
                (bs, e) \<Rightarrow> (batch' # bs, e))
           else approx_loop sample_lengths max_tokens max_batch rest batch' len')
        else
          (case approx_loop sample_lengths max_tokens max_batch rest [idx] this_length of
             (bs, e) \<Rightarrow> (batch # bs, e)))"

definition ApproxBatchSampler_iter ::
  "nat list \<Rightarrow> int \<Rightarrow> int \<Rightarrow> int list \<Rightarrow> nat list list \<times> error option" where
  "ApproxBatchSampler_iter sampler max_tokens max_batch sample_lengths =
     approx_loop sample_lengths max_tokens max_batch sampler [] 0"

text \<open>
  The local variables \<^verbatim>\<open>batch\<close> and \<^verbatim>\<open>length\<close> when the loop has consumed the stream: the
  pending batch, which the generator has not yielded (there is no flush after the
  loop), and the longest length in it. The branches are those of \<open>approx_loop\<close>. At an
  index beyond the table the loop ends with the exception and the variables stay as
  they are.
\<close>

fun approx_pending ::
  "int list \<Rightarrow> int \<Rightarrow> int \<Rightarrow> nat list \<Rightarrow> nat list \<Rightarrow> int \<Rightarrow> nat list \<times> int" where
  "approx_pending sample_lengths max_tokens max_batch [] batch len = (batch, len)"
| "approx_pending sample_lengths max_tokens max_batch (idx # rest) batch len =
     (if length sample_lengths \<le> idx then (batch, len)
      else
        let this_length = sample_lengths ! idx in
        if (int (length batch) + 1) * max len this_length \<le> max_tokens then
          (let batch' = batch @ [idx]; len' = max len this_length in
           if int (length batch') = max_batch then
             approx_pending sample_lengths max_tokens max_batch rest [] 0
           else approx_pending sample_lengths max_tokens max_batch rest batch' len')
        else approx_pending sample_lengths max_tokens max_batch rest [idx] this_length)"

text \<open>
  The two budgets of a batch, as the documentation of the class states them:
  at most \<open>max_batch\<close> indices, and batch size times the longest length in the batch at
  most \<open>max_tokens\<close>. Python's \<^verbatim>\<open>max\<close> of an empty batch does not exist; an empty batch
  holds no token.
\<close>

definition batch_tokens :: "int list \<Rightarrow> nat list \<Rightarrow> int" where
  "batch_tokens sample_lengths batch =
     (if batch = [] then 0
      else int (length batch) * Max (set (map (\<lambda>i. sample_lengths ! i) batch)))"

definition within_budget :: "int list \<Rightarrow> int \<Rightarrow> int \<Rightarrow> nat list \<Rightarrow> bool" where
  "within_budget sample_lengths max_tokens max_batch batch \<longleftrightarrow>
     int (length batch) \<le> max_batch \<and> batch_tokens sample_lengths batch \<le> max_tokens"


section \<open>Alphabet, control symbols and tokenizer\<close>

text \<open>
  Modelled from the spec: the module \<^verbatim>\<open>sequence_models.constants\<close> (\<^verbatim>\<open>PAD\<close>, \<^verbatim>\<open>START\<close>,
  \<^verbatim>\<open>STOP\<close>, \<^verbatim>\<open>MASK\<close>, \<^verbatim>\<open>ALL_AAS\<close>) is not part of the sources. The spec calls
  the first four reserved control symbols of the alphabet, so each is one character;
  \<^verbatim>\<open>ALL_AAS\<close> is the string of amino-acid symbols. Their values are parameters of the
  model.
\<close>

record constants =
  PAD :: char
  START :: char
  STOP :: char
  MASK :: char
  ALL_AAS :: string

text \<open>
  Python's \<^verbatim>\<open>str.index\<close>, used as \<^verbatim>\<open>self.tokenizer.alphabet.index(PAD)\<close>: the position of
  the first occurrence, \<open>ValueError\<close> when there is none.
\<close>

fun str_index :: "'a list \<Rightarrow> 'a \<Rightarrow> error + nat" where
  "str_index [] c = Inl ValueError"
| "str_index (a # as) c =
     (if a = c then Inr 0
      else case str_index as c of Inl e \<Rightarrow> Inl e | Inr i \<Rightarrow> Inr (Suc i))"

text \<open>
  Modelled from the spec: \<^verbatim>\<open>Tokenizer.tokenize\<close> of \<^verbatim>\<open>sequence_models.utils\<close> is not part
  of the sources. By the spec each symbol is mapped to its integer id, which is its
  position in the alphabet (an ordered set of symbols), and tokenization fails with
  \<open>UnknownSymbolError\<close> on a symbol that is not in the alphabet.
\<close>

fun tokenize :: "string \<Rightarrow> string \<Rightarrow> error + nat list" where
  "tokenize alphabet [] = Inr []"
| "tokenize alphabet (c # s) =
     (case str_index alphabet c of
        Inl e \<Rightarrow> Inl UnknownSymbolError
      | Inr t \<Rightarrow> (case tokenize alphabet s of Inl e \<Rightarrow> Inl e | Inr ts \<Rightarrow> Inr (t # ts)))"

text \<open>
  The comprehension \<^verbatim>\<open>[torch.LongTensor(self.tokenizer.tokenize(s)) for s in sequences]\<close>:
  the first failing sequence raises. A one-dimensional tensor is the list of its
  entries, a two-dimensional tensor the list of its rows.
\<close>

fun tokenize_all :: "string \<Rightarrow> string list \<Rightarrow> error + nat list list" where
  "tokenize_all alphabet [] = Inr []"
| "tokenize_all alphabet (s # ss) =
     (case tokenize alphabet s of
        Inl e \<Rightarrow> Inl e
      | Inr t \<Rightarrow> (case tokenize_all alphabet ss of Inl e \<Rightarrow> Inl e | Inr ts \<Rightarrow> Inr (t # ts)))"

section \<open>Padding and the sequence collaters\<close>

text \<open>
  The loop of \<^verbatim>\<open>_pad\<close>: \<^verbatim>\<open>output[row, :len(t)] = t\<close> for each row. \<open>row\<close> is the counter of
  \<^verbatim>\<open>enumerate\<close>.
\<close>

fun pad_rows :: "nat \<Rightarrow> 'a list list \<Rightarrow> 'a list list \<Rightarrow> 'a list list" where
  "pad_rows row [] output = output"
| "pad_rows row (t # ts) output =
     pad_rows (Suc row) ts (output[row := t @ drop (length t) (output ! row)])"

text \<open>
  \<^verbatim>\<open>_pad(tokenized, value)\<close>. \<^verbatim>\<open>max\<close> of an empty sequence raises \<open>ValueError\<close>.
\<close>

definition pad_tokenized :: "'a list list \<Rightarrow> 'a \<Rightarrow> error + 'a list list" where
  "pad_tokenized tokenized val =
     (if tokenized = [] then Inl ValueError
      else
        let batch_size = length tokenized;
            max_len = Max (set (map length tokenized));
            output = replicate batch_size (replicate max_len val)
        in Inr (pad_rows 0 tokenized output))"

text \<open>
  \<^verbatim>\<open>torch.stack\<close> on a list of one-dimensional tensors: \<open>RuntimeError\<close> on an empty list
  and on tensors of different sizes.
\<close>

definition torch_stack :: "'a list list \<Rightarrow> error + 'a list list" where
  "torch_stack ts =
     (if ts = [] then Inl RuntimeError
      else if list_all (\<lambda>t. length t = length (hd ts)) ts then Inr ts
      else Inl RuntimeError)"

text \<open>\<^verbatim>\<open>SimpleCollater._prep\<close>; the one-element tuple it returns is its element.\<close>

definition SimpleCollater_prep ::
  "constants \<Rightarrow> string \<Rightarrow> bool \<Rightarrow> string list \<Rightarrow> error + nat list list" where
  "SimpleCollater_prep C alphabet pad sequences =
     (case tokenize_all alphabet sequences of
        Inl e \<Rightarrow> Inl e
      | Inr seqs \<Rightarrow>
          if pad then
            (case str_index alphabet (PAD C) of
               Inl e \<Rightarrow> Inl e
             | Inr pad_idx \<Rightarrow> pad_tokenized seqs pad_idx)
          else torch_stack seqs)"

text \<open>\<^verbatim>\<open>LMCollater._split\<close>; \<^verbatim>\<open>s[::-1]\<close> is the reversed string.\<close>

definition LMCollater_split ::
  "constants \<Rightarrow> bool \<Rightarrow> string list \<Rightarrow> string list \<times> string list" where
  "LMCollater_split C backwards sequences =
     (if \<not> backwards then
        (map (\<lambda>s. START C # s) sequences, map (\<lambda>s. s @ [STOP C]) sequences)
      else
        (map (\<lambda>s. STOP C # rev s) sequences, map (\<lambda>s. rev s @ [START C]) sequences))"

text \<open>\<^verbatim>\<open>LMCollater._tokenize_and_mask\<close>; \<^verbatim>\<open>torch.ones_like(t)\<close> is a row of ones as long as \<open>t\<close>.\<close>

definition tokenize_and_mask ::
  "constants \<Rightarrow> string \<Rightarrow> string list \<Rightarrow> string list
     \<Rightarrow> error + (nat list list \<times> nat list list \<times> nat list list)" where
  "tokenize_and_mask C alphabet src tgt =
     (case tokenize_all alphabet src of
        Inl e \<Rightarrow> Inl e
      | Inr src1 \<Rightarrow>
     (case tokenize_all alphabet tgt of
        Inl e \<Rightarrow> Inl e
      | Inr tgt1 \<Rightarrow>
     (let mask1 = map (\<lambda>t. replicate (length t) (1::nat)) tgt1 in
      case str_index alphabet (PAD C) of
        Inl e \<Rightarrow> Inl e
      | Inr pad_idx \<Rightarrow>
     (case pad_tokenized src1 pad_idx of
        Inl e \<Rightarrow> Inl e
      | Inr src2 \<Rightarrow>
     (case pad_tokenized tgt1 pad_idx of
        Inl e \<Rightarrow> Inl e
      | Inr tgt2 \<Rightarrow>
     (case pad_tokenized mask1 0 of
        Inl e \<Rightarrow> Inl e
      | Inr mask2 \<Rightarrow> Inr (src2, tgt2, mask2)))))))"

text \<open>\<^verbatim>\<open>LMCollater._prep\<close>. The \<^verbatim>\<open>pad\<close> flag of the class is not read on this path.\<close>

definition LMCollater_prep ::
  "constants \<Rightarrow> string \<Rightarrow> bool \<Rightarrow> string list
     \<Rightarrow> error + (nat list list \<times> nat list list \<times> nat list list)" where
  "LMCollater_prep C alphabet backwards sequences =
     (case LMCollater_split C backwards sequences of
        (src, tgt) \<Rightarrow> tokenize_and_mask C alphabet src tgt)"

text \<open>
  \<^verbatim>\<open>AncestorCollater._prep\<close>. Python's \<^verbatim>\<open>zip\<close> stops at the shorter list, as \<open>zip\<close> does.
\<close>

definition AncestorCollater_prep ::
  "constants \<Rightarrow> string \<Rightarrow> bool \<Rightarrow> string list \<Rightarrow> string list
     \<Rightarrow> error + (nat list list \<times> nat list list \<times> nat list list)" where
  "AncestorCollater_prep C alphabet backwards sequences ancestors =
     (let sequences1 = (if backwards then map rev sequences else sequences);
          ancestors1 = (if backwards then map rev ancestors else ancestors);
          src = map (\<lambda>(s, a). START C # s @ STOP C # a) (zip sequences1 ancestors1);
          tgt = map (\<lambda>(s, a). s @ STOP C # a @ [STOP C]) (zip sequences1 ancestors1)
      in tokenize_and_mask C alphabet src tgt)"

text \<open>
  A two-dimensional tensor, as the list of its rows, has shape \<open>(n, m)\<close> when it has
  \<open>n\<close> rows and each row has \<open>m\<close> entries.
\<close>

definition has_shape :: "'a list list \<Rightarrow> nat \<times> nat \<Rightarrow> bool" where
  "has_shape t sh \<longleftrightarrow> length t = fst sh \<and> list_all (\<lambda>r. length r = snd sh) t"

section \<open>SortishSampler\<close>

text \<open>
  The fields of a \<^verbatim>\<open>SortishSampler\<close>. \<open>data\<close> is the list of buckets; \<^verbatim>\<open>__iter__\<close> shuffles
  it in place, so it is part of the state.
\<close>

record SortishSampler =
  data :: "nat list list"
  num_replicas :: nat
  num_samples :: nat
  bucket_size :: nat
  rank :: nat
  epoch :: nat
  total_size :: nat

text \<open>
  \<^verbatim>\<open>math.ceil(n * 1.0 / d)\<close> and \<^verbatim>\<open>np.ceil(n / d)\<close> for \<open>d > 0\<close>. The code divides in
  double precision, which gives the exact ceiling of the quotient as long as
  \<open>n * d < 2 ^ 53\<close>; the model is the exact ceiling.
\<close>

definition ceil_div :: "nat \<Rightarrow> nat \<Rightarrow> nat" where
  "ceil_div n d = (n + d - 1) div d"

text \<open>
  \<^verbatim>\<open>np.argsort(sequence_lengths)\<close> returns the dataset indices in ascending order of
  length. NumPy's default sort is not stable, so the lengths do not determine the order
  among indices of equal length. The function is a parameter \<open>np_argsort\<close> of the model,
  and \<open>is_argsort\<close> is what NumPy promises of its result: it is a permutation of the
  indices \<open>0, \<dots>, n - 1\<close> (sorting it gives them in order), and the lengths ascend along
  it.
\<close>

definition is_argsort :: "int list \<Rightarrow> nat list \<Rightarrow> bool" where
  "is_argsort sequence_lengths order \<longleftrightarrow>
     sort order = [0..<length sequence_lengths]
     \<and> sorted (map (\<lambda>i. sequence_lengths ! i) order)"

text \<open>
  \<^verbatim>\<open>SortishSampler.__init__\<close>. Both divisions raise \<open>ZeroDivisionError\<close> on a zero divisor.
  The slice \<^verbatim>\<open>self.data[i * bucket_size: i * bucket_size + bucket_size]\<close> is
  \<open>take bucket_size (drop (i * bucket_size) \<dots>)\<close>.
\<close>

definition SortishSampler_init ::
  "(int list \<Rightarrow> nat list) \<Rightarrow> int list \<Rightarrow> nat \<Rightarrow> nat \<Rightarrow> nat \<Rightarrow> error + SortishSampler" where
  "SortishSampler_init np_argsort sequence_lengths bucket_sz num_repl rnk =
     (if num_repl = 0 then Inl ZeroDivisionError
      else if bucket_sz = 0 then Inl ZeroDivisionError
      else
        let order = np_argsort sequence_lengths;
            n_samples = ceil_div (length order) num_repl;
            n_buckets = ceil_div (length order) bucket_sz
        in Inr \<lparr>data = map (\<lambda>i. take bucket_sz (drop (i * bucket_sz) order)) [0..<n_buckets],
                 num_replicas = num_repl,
                 num_samples = n_samples,
                 bucket_size = bucket_sz,
                 rank = rnk,
                 epoch = 0,
                 total_size = n_samples * num_repl\<rparr>)"

text \<open>
  The extended slice \<^verbatim>\<open>xs[start:stop:step]\<close> for non-negative \<open>start\<close> and \<open>stop\<close> and
  positive \<open>step\<close>: the entries at positions \<open>start\<close>, \<open>start + step\<close>, \<dots> below \<open>stop\<close> and
  below the length.
\<close>

definition slice_step :: "'a list \<Rightarrow> nat \<Rightarrow> nat \<Rightarrow> nat \<Rightarrow> 'a list" where
  "slice_step xs start stop step =
     map (\<lambda>j. xs ! j)
       (filter (\<lambda>j. (j - start) mod step = 0) [start..<min stop (length xs)])"

text \<open>
  \<^verbatim>\<open>SortishSampler.__iter__\<close>. The two kinds of \<^verbatim>\<open>np.random.shuffle\<close> calls, seeded with
  the epoch, are parameters: \<open>shuffle_bucket e k b\<close> is bucket number \<open>k\<close> after its
  shuffle in epoch \<open>e\<close>, and \<open>shuffle_data e bs\<close> the list of buckets after its shuffle.
  The result is the list of indices handed to \<^verbatim>\<open>iter\<close> and the sampler with its
  shuffled \<open>data\<close>; a failing \<^verbatim>\<open>assert\<close> is \<open>AssertionError\<close>.

  \<^verbatim>\<open>indices[:k]\<close> with \<open>k = total_size - len(indices)\<close> is \<open>take k indices\<close> for \<open>k \<ge> 0\<close>;
  for a negative \<open>k\<close> Python drops the last \<open>-k\<close> entries, which leaves \<open>total_size\<close> of them.
\<close>

definition SortishSampler_iter ::
  "(nat \<Rightarrow> nat \<Rightarrow> nat list \<Rightarrow> nat list) \<Rightarrow> (nat \<Rightarrow> nat list list \<Rightarrow> nat list list)
     \<Rightarrow> SortishSampler \<Rightarrow> error + (nat list \<times> SortishSampler)" where
  "SortishSampler_iter shuffle_bucket shuffle_data self =
     (let buckets = map (\<lambda>(k, b). shuffle_bucket (epoch self) k b)
                        (zip [0..<length (data self)] (data self));
          data1 = shuffle_data (epoch self) buckets;
          indices = concat data1;
          indices1 = indices @
            (if length indices \<le> total_size self
             then take (total_size self - length indices) indices
             else take (total_size self) indices)
      in if length indices1 \<noteq> total_size self then Inl AssertionError
         else
           let indices2 = slice_step indices1 (rank self) (total_size self) (num_replicas self)
           in if length indices2 \<noteq> num_samples self then Inl AssertionError
              else Inr (indices2, self\<lparr>data := data1\<rparr>))"

text \<open>\<^verbatim>\<open>SortishSampler.__len__\<close>.\<close>

definition SortishSampler_len :: "SortishSampler \<Rightarrow> nat" where
  "SortishSampler_len self = num_samples self"

section \<open>MLMCollater\<close>

text \<open>
  \<^verbatim>\<open>int(len(seq) * 0.15)\<close> multiplies in double precision and truncates. The model is
  exact. The double nearest to 0.15 is \<open>5404319552844595 / 2 ^ 55\<close>; a double has 53
  significant bits, and IEEE 754 rounds to the nearest such number, ties to the even
  one. \<open>round_to_double p\<close> rounds the natural number \<open>p\<close> that way (a scale \<open>2 ^ 55\<close>
  below the numbers does not change the rounding), and \<open>bit_length\<close> is Python's
  \<^verbatim>\<open>int.bit_length\<close>.
\<close>

fun bit_length :: "nat \<Rightarrow> nat" where
  "bit_length n = (if n = 0 then 0 else Suc (bit_length (n div 2)))"

declare bit_length.simps [simp del]

definition round_to_double :: "nat \<Rightarrow> nat" where
  "round_to_double p =
     (let s = bit_length p - 53; q = p div 2 ^ s; r = p mod 2 ^ s
      in if s = 0 then p
         else if 2 ^ s < 2 * r \<or> (2 * r = 2 ^ s \<and> odd q) then (q + 1) * 2 ^ s
         else q * 2 ^ s)"

definition n_mod :: "nat \<Rightarrow> nat" where
  "n_mod len = round_to_double (round_to_double len * 5404319552844595) div 2 ^ 55"

text \<open>
  The random draws of \<^verbatim>\<open>MLMCollater._prep\<close> are parameters of the model. The first
  argument of each is the position in the batch of the sequence being corrupted, the
  second argument of \<open>uniform\<close> and \<open>choice_list\<close> the number of the round of the inner
  loop:
  \<^item> \<open>random_sample i population k\<close>: \<^verbatim>\<open>random.sample(population, k)\<close>;
  \<^item> \<open>choice_int i n\<close>: \<^verbatim>\<open>np.random.choice(n)\<close>, a number below \<open>n\<close>;
  \<^item> \<open>uniform i j\<close>: \<^verbatim>\<open>np.random.uniform()\<close>, a number in \<open>[0, 1)\<close>;
  \<^item> \<open>choice_list i j xs\<close>: \<^verbatim>\<open>np.random.choice(xs)\<close>, an entry of the non-empty list \<open>xs\<close>
    (\<open>ValueError\<close> on an empty one).
\<close>

record rng =
  random_sample :: "nat \<Rightarrow> nat list \<Rightarrow> nat \<Rightarrow> nat list"
  choice_int :: "nat \<Rightarrow> nat \<Rightarrow> nat"
  uniform :: "nat \<Rightarrow> nat \<Rightarrow> rat"
  choice_list :: "nat \<Rightarrow> nat \<Rightarrow> string \<Rightarrow> char"

text \<open>
  What \<^verbatim>\<open>random.sample(list(range(L)), int(L * 0.15))\<close> and \<^verbatim>\<open>np.random.choice(L)\<close>
  promise for the sequence at position \<open>i\<close>, of length \<open>L\<close>: as many positions as asked
  for, all different, all below \<open>L\<close>.
\<close>

definition sample_ok :: "rng \<Rightarrow> nat \<Rightarrow> nat \<Rightarrow> bool" where
  "sample_ok R i L \<longleftrightarrow>
     length (random_sample R i [0..<L] (n_mod L)) = n_mod L \<and>
     distinct (random_sample R i [0..<L] (n_mod L)) \<and>
     (\<forall>j\<in>set (random_sample R i [0..<L] (n_mod L)). j < L) \<and>
     choice_int R i L < L"

text \<open>
  The inner loop \<^verbatim>\<open>for idx in mod_idx\<close>. The thresholds are the doubles \<^verbatim>\<open>0.10\<close> and
  \<^verbatim>\<open>0.20\<close>. An index beyond the sequence raises \<open>IndexError\<close>.
\<close>

fun mlm_modify ::
  "constants \<Rightarrow> rng \<Rightarrow> nat \<Rightarrow> string \<Rightarrow> nat \<Rightarrow> nat list \<Rightarrow> string \<Rightarrow> error + string" where
  "mlm_modify C R i seq j [] seq_mod = Inr seq_mod"
| "mlm_modify C R i seq j (idx # rest) seq_mod =
     (if length seq \<le> idx then Inl IndexError
      else
        let p = uniform R i j in
        if p \<le> 3602879701896397 / 36028797018963968 then
          mlm_modify C R i seq (Suc j) rest (seq_mod[idx := seq ! idx])
        else if 3602879701896397 / 36028797018963968 < p
                \<and> p \<le> 3602879701896397 / 18014398509481984 then
          (let candidates = filter (\<lambda>a. a \<noteq> seq ! idx) (ALL_AAS C) in
           if candidates = [] then Inl ValueError
           else mlm_modify C R i seq (Suc j) rest (seq_mod[idx := choice_list R i j candidates]))
        else mlm_modify C R i seq (Suc j) rest (seq_mod[idx := MASK C]))"

text \<open>\<^verbatim>\<open>m = torch.zeros(len(seq_mod)); m[mod_idx] = 1\<close>.\<close>

definition mask_row :: "nat \<Rightarrow> nat list \<Rightarrow> nat list" where
  "mask_row len mod_idx = fold (\<lambda>idx m. m[idx := 1]) mod_idx (replicate len 0)"

text \<open>
  The loop \<^verbatim>\<open>for seq in sequences\<close>. \<open>i\<close> is the position of \<open>seq\<close> in the batch; \<open>tgt\<close>,
  \<open>src\<close> and \<open>msk\<close> are the three lists the loop updates. \<^verbatim>\<open>tgt.remove(seq)\<close> removes the
  first entry equal to \<open>seq\<close> and raises \<open>ValueError\<close> when there is none.
\<close>

fun mlm_loop ::
  "constants \<Rightarrow> rng \<Rightarrow> nat \<Rightarrow> string list \<Rightarrow> string list \<Rightarrow> string list \<Rightarrow> nat list list
     \<Rightarrow> error + (string list \<times> string list \<times> nat list list)" where
  "mlm_loop C R i [] tgt src msk = Inr (src, tgt, msk)"
| "mlm_loop C R i (seq # rest) tgt src msk =
     (if length seq = 0 then
        (if seq \<in> set tgt then mlm_loop C R (Suc i) rest (remove1 seq tgt) src msk
         else Inl ValueError)
      else
        let mod_idx0 = random_sample R i [0..<length seq] (n_mod (length seq));
            mod_idx = (if length mod_idx0 = 0 then [choice_int R i (length seq)] else mod_idx0)
        in case mlm_modify C R i seq 0 mod_idx seq of
             Inl e \<Rightarrow> Inl e
           | Inr seq_mod \<Rightarrow>
               mlm_loop C R (Suc i) rest tgt (src @ [seq_mod])
                 (msk @ [mask_row (length seq_mod) mod_idx]))"

text \<open>\<^verbatim>\<open>MLMCollater._prep\<close>.\<close>

definition MLMCollater_prep ::
  "constants \<Rightarrow> rng \<Rightarrow> string \<Rightarrow> string list
     \<Rightarrow> error + (nat list list \<times> nat list list \<times> nat list list)" where
  "MLMCollater_prep C R alphabet sequences =
     (case mlm_loop C R 0 sequences sequences [] [] of
        Inl e \<Rightarrow> Inl e
      | Inr (src, tgt, msk) \<Rightarrow>
     (case tokenize_all alphabet src of
        Inl e \<Rightarrow> Inl e
      | Inr src1 \<Rightarrow>
     (case tokenize_all alphabet tgt of
        Inl e \<Rightarrow> Inl e
      | Inr tgt1 \<Rightarrow>
     (case str_index alphabet (PAD C) of
        Inl e \<Rightarrow> Inl e
      | Inr pad_idx \<Rightarrow>
     (case pad_tokenized src1 pad_idx of
        Inl e \<Rightarrow> Inl e
      | Inr src2 \<Rightarrow>
     (case pad_tokenized tgt1 pad_idx of
        Inl e \<Rightarrow> Inl e
      | Inr tgt2 \<Rightarrow>
     (case pad_tokenized msk 0 of
        Inl e \<Rightarrow> Inl e
      | Inr msk2 \<Rightarrow> Inr (src2, tgt2, msk2))))))))"

text \<open>The number of positions marked 1 in a mask row.\<close>

definition count_ones :: "nat list \<Rightarrow> nat" where
  "count_ones row = length (filter (\<lambda>x. x = 1) row)"

section \<open>StructureCollater\<close>

text \<open>
  A structure is the four arrays \<^verbatim>\<open>structure['0']\<close>, \<dots>, \<^verbatim>\<open>structure['3']\<close> that
  \<^verbatim>\<open>StructureCollater.__call__\<close> reads. The type \<open>'f\<close> stands for the floating-point
  entries; only its zero is used.

  The functions of \<^verbatim>\<open>sequence_models.gnn\<close> are not part of the sources and are parameters
  of the model. \<^verbatim>\<open>get_mask\<close> returns its tensor as the list of its entries in storage
  order, which is all that \<^verbatim>\<open>str_mask.view(1, ell, -1)\<close> depends on.
\<close>

record 'f structure_arrays =
  dist :: "'f list list"
  omega :: "'f list list"
  theta :: "'f list list"
  phi :: "'f list list"

record 'f gnn =
  get_node_features :: "'f list list \<Rightarrow> 'f list list \<Rightarrow> 'f list list \<Rightarrow> 'f list list"
  get_k_neighbors :: "'f list list \<Rightarrow> nat \<Rightarrow> int list list"
  get_edge_features ::
    "'f list list \<Rightarrow> 'f list list \<Rightarrow> 'f list list \<Rightarrow> 'f list list \<Rightarrow> int list list
       \<Rightarrow> 'f list list list"
  get_mask :: "'f list list list \<Rightarrow> 'f list"
  replace_nan :: "'f list list list \<Rightarrow> 'f list list list"

text \<open>
  The slice assignments. \<open>write_rows ell f vs t\<close> is \<^verbatim>\<open>t[1: ell + 1] = vs\<close>, where \<open>f v old\<close>
  is the new content of a row whose old content is \<open>old\<close>; \<open>write_cols nc\<close> is the
  assignment \<^verbatim>\<open>row[:nc] = v\<close> within a row.
\<close>

definition write_rows :: "nat \<Rightarrow> ('b \<Rightarrow> 'a \<Rightarrow> 'a) \<Rightarrow> 'b list \<Rightarrow> 'a list \<Rightarrow> 'a list" where
  "write_rows ell f vs t =
     take 1 t @ map (\<lambda>(v, old). f v old) (zip vs (take ell (drop 1 t))) @ drop (ell + 1) t"

definition write_cols :: "nat \<Rightarrow> 'a list \<Rightarrow> 'a list \<Rightarrow> 'a list" where
  "write_cols nc v old = v @ drop nc old"

text \<open>
  The body of the loop for an example whose structure is present and kept. The four
  components of \<open>ex\<close> are \<^verbatim>\<open>nodes[i]\<close>, \<^verbatim>\<open>edges[i]\<close>, \<^verbatim>\<open>connections[i]\<close> and \<^verbatim>\<open>edge_mask[i]\<close>.
  A right-hand side whose shape is not the shape of the slice raises \<open>RuntimeError\<close>
  (broadcasting of a smaller right-hand side is not modelled), and so does the \<^verbatim>\<open>view\<close>
  when the entries of the mask do not split into \<open>ell\<close> rows.
\<close>

definition fill_structure ::
  "'f gnn \<Rightarrow> nat \<Rightarrow> nat \<Rightarrow> 'f structure_arrays
     \<Rightarrow> 'f list list \<times> 'f list list list \<times> int list list \<times> 'f list list list
     \<Rightarrow> error + ('f list list \<times> 'f list list list \<times> int list list \<times> 'f list list list)" where
  "fill_structure G n_connections ell struct ex =
     (case ex of (nodes_i, edges_i, connections_i, edge_mask_i) \<Rightarrow>
        let V = get_node_features G (omega struct) (theta struct) (phi struct);
            E_idx = get_k_neighbors G (dist struct) n_connections;
            E0 = get_edge_features G (dist struct) (omega struct) (theta struct) (phi struct) E_idx;
            str_mask = get_mask G E0;
            E = replace_nan G E0;
            nc = min ell n_connections
        in
          if \<not> (length V = ell \<and> list_all (\<lambda>r. length r = 10) V) then Inl RuntimeError
          else if \<not> (length E = ell
                      \<and> list_all (\<lambda>r. length r = nc \<and> list_all (\<lambda>c. length c = 6) r) E)
            then Inl RuntimeError
          else if \<not> (length E_idx = ell \<and> list_all (\<lambda>r. length r = nc) E_idx)
            then Inl RuntimeError
          else if ell = 0 \<or> length str_mask mod ell \<noteq> 0 \<or> length str_mask div ell \<noteq> nc
            then Inl RuntimeError
          else
            Inr (write_rows ell (\<lambda>v old. v) V nodes_i,
                 write_rows ell (write_cols nc) E edges_i,
                 write_rows ell (write_cols nc) E_idx connections_i,
                 write_rows ell (\<lambda>m old. map (\<lambda>x. [x]) m @ drop nc old)
                   (map (\<lambda>r. take nc (drop (r * nc) str_mask)) [0..<ell]) edge_mask_i))"

text \<open>
  The loop \<^verbatim>\<open>for i, (ell, structure) in enumerate(zip(ells, structures))\<close>. A missing
  structure is \<open>None\<close>. \<open>u i\<close> is the value of \<^verbatim>\<open>np.random.random()\<close> drawn for example
  \<open>i\<close>, a number in \<open>[0, 1)\<close>.
\<close>

fun structure_loop ::
  "'f gnn \<Rightarrow> rat \<Rightarrow> nat \<Rightarrow> (nat \<Rightarrow> rat) \<Rightarrow> nat \<Rightarrow> (nat \<times> 'f structure_arrays option) list
     \<Rightarrow> 'f list list list \<times> 'f list list list list \<times> int list list list \<times> 'f list list list list
     \<Rightarrow> error + ('f list list list \<times> 'f list list list list \<times> int list list list
                 \<times> 'f list list list list)" where
  "structure_loop G p_drop n_connections u i [] st = Inr st"
| "structure_loop G p_drop n_connections u i ((ell, struct_opt) # rest) st =
     (case struct_opt of
        None \<Rightarrow> structure_loop G p_drop n_connections u (Suc i) rest st
      | Some struct \<Rightarrow>
          if u i < p_drop then structure_loop G p_drop n_connections u (Suc i) rest st
          else
            (case st of (nodes, edges, connections, edge_mask) \<Rightarrow>
               (case fill_structure G n_connections ell struct
                       (nodes ! i, edges ! i, connections ! i, edge_mask ! i) of
                  Inl e \<Rightarrow> Inl e
                | Inr (nodes_i, edges_i, connections_i, edge_mask_i) \<Rightarrow>
                    structure_loop G p_drop n_connections u (Suc i) rest
                      (nodes[i := nodes_i], edges[i := edges_i],
                       connections[i := connections_i], edge_mask[i := edge_mask_i]))))"

text \<open>
  \<^verbatim>\<open>StructureCollater.__call__\<close> on a batch of pairs of a sequence and an optional
  structure. \<open>prep\<close> is \<^verbatim>\<open>self.sequence_collater._prep\<close>. Unpacking the \<^verbatim>\<open>zip\<close> of an empty
  batch raises \<open>ValueError\<close>. The result is the output of \<open>prep\<close> followed by \<^verbatim>\<open>nodes\<close>,
  \<^verbatim>\<open>edges\<close>, \<^verbatim>\<open>connections\<close> and \<^verbatim>\<open>edge_mask\<close>.
\<close>

definition StructureCollater_call ::
  "'f::zero gnn \<Rightarrow> (string list \<Rightarrow> error + 'c) \<Rightarrow> rat \<Rightarrow> nat \<Rightarrow> (nat \<Rightarrow> rat)
     \<Rightarrow> (string \<times> 'f structure_arrays option) list
     \<Rightarrow> error + ('c \<times> 'f list list list \<times> 'f list list list list \<times> int list list list
                 \<times> 'f list list list list)" where
  "StructureCollater_call G prep p_drop n_connections u batch =
     (if batch = [] then Inl ValueError
      else
        let sequences = map fst batch; structures = map snd batch in
        case prep sequences of
          Inl e \<Rightarrow> Inl e
        | Inr collated_seqs \<Rightarrow>
            let ells = map length sequences;
                max_ell = Max (set ells) + 1;
                n = length sequences;
                nodes = replicate n (replicate max_ell (replicate 10 0));
                edges = replicate n (replicate max_ell (replicate n_connections (replicate 6 0)));
                connections = replicate n (replicate max_ell (replicate n_connections 0));
                edge_mask = replicate n (replicate max_ell (replicate n_connections (replicate 1 0)))
            in case structure_loop G p_drop n_connections u 0 (zip ells structures)
                      (nodes, edges, connections, edge_mask) of
                 Inl e \<Rightarrow> Inl e
               | Inr (nodes1, edges1, connections1, edge_mask1) \<Rightarrow>
                   Inr (collated_seqs, nodes1, edges1, connections1, edge_mask1))"

text \<open>
  A geometry module and a structure of two residues to run the collater on: every
  node feature is 7, every edge feature 5, the neighbours of a residue are the first
  \<open>k\<close> residues, and every edge is valid.
\<close>

definition example_gnn :: "int gnn" where
  "example_gnn =
     \<lparr>get_node_features = (\<lambda>om th ph. map (\<lambda>r. replicate 10 7) om),
      get_k_neighbors = (\<lambda>d k. map (\<lambda>r. take k (map int [0..<length d])) d),
      get_edge_features = (\<lambda>d om th ph idx. map (map (\<lambda>j. replicate 6 5)) idx),
      get_mask = (\<lambda>E. concat (map (map (\<lambda>c. 1)) E)),
      replace_nan = (\<lambda>E. E)\<rparr>"

definition example_structure :: "int structure_arrays" where
  "example_structure =
     \<lparr>dist = [[0, 1], [1, 0]], omega = [[0, 1], [1, 0]], theta = [[0, 1], [1, 0]],
      phi = [[0, 1], [1, 0]]\<rparr>"

section \<open>Properties of ApproxBatchSampler\<close>

lemma batch_tokens_le:
  assumes "\<forall>i\<in>set batch. L ! i \<le> len" "0 \<le> len"
  shows "batch_tokens L batch \<le> int (length batch) * len"
proof (cases "batch = []")
  case True then show ?thesis by (simp add: batch_tokens_def)
next
  case False
  then have "Max (set (map (\<lambda>i. L ! i) batch)) \<le> len"
    using assms(1) by (subst Max_le_iff) auto
  then show ?thesis using False
    by (simp add: batch_tokens_def mult_left_mono)
qed

lemma approx_loop_budget:
  assumes "\<forall>idx\<in>set stream. idx < length L \<longrightarrow> 0 \<le> L ! idx \<and> L ! idx \<le> mt"
    and "0 \<le> len" "len \<le> mt" "int (length batch) * len \<le> mt"
    and "\<forall>i\<in>set batch. L ! i \<le> len" "int (length batch) < mb"
  shows "\<forall>b\<in>set (fst (approx_loop L mt mb stream batch len)). within_budget L mt mb b"
  using assms
proof (induction stream arbitrary: batch len)
  case Nil
  then show ?case by simp
next
  case (Cons idx rest)
  show ?case
  proof (cases "length L \<le> idx")
    case True
    then show ?thesis by simp
  next
    case inrange: False
    define this_length where "this_length = L ! idx"
    have tl: "0 \<le> this_length" "this_length \<le> mt"
      using Cons.prems(1) inrange by (auto simp: this_length_def)
    have rest: "\<forall>idx\<in>set rest. idx < length L \<longrightarrow> 0 \<le> L ! idx \<and> L ! idx \<le> mt"
      using Cons.prems(1) by simp
    have mt0: "0 \<le> mt" using Cons.prems(2,3) by linarith
    show ?thesis
    proof (cases "(int (length batch) + 1) * max len this_length \<le> mt")
      case fits: True
      define batch' where "batch' = batch @ [idx]"
      define len' where "len' = max len this_length"
      have b'max: "\<forall>i\<in>set batch'. L ! i \<le> len'"
        using Cons.prems(5) by (auto simp: batch'_def len'_def this_length_def)
      have b'tok: "int (length batch') * len' \<le> mt"
        using fits by (simp add: batch'_def len'_def add.commute)
      have len'0: "0 \<le> len'" "len' \<le> mt"
        using Cons.prems(2,3) tl by (auto simp: len'_def)
      show ?thesis
      proof (cases "int (length batch') = mb")
        case full: True
        have wb: "within_budget L mt mb batch'"
          using batch_tokens_le[OF b'max len'0(1)] b'tok full
          by (simp add: within_budget_def)
        have "0 < mb" using Cons.prems(6) by linarith
        then have IH: "\<forall>b\<in>set (fst (approx_loop L mt mb rest [] 0)). within_budget L mt mb b"
          using Cons.IH[of 0 "[]"] rest mt0 by simp
        show ?thesis using inrange fits full wb IH
          by (simp add: this_length_def[symmetric] batch'_def[symmetric] split: prod.splits)
      next
        case notfull: False
        have "int (length batch') < mb"
          using Cons.prems(6) notfull by (simp add: batch'_def)
        then have IH: "\<forall>b\<in>set (fst (approx_loop L mt mb rest batch' len')). within_budget L mt mb b"
          using Cons.IH[of len' batch'] rest len'0 b'tok b'max by simp
        show ?thesis using inrange fits notfull IH
          by (simp add: this_length_def[symmetric] batch'_def[symmetric] len'_def[symmetric])
      qed
    next
      case over: False
      have ne: "batch \<noteq> []"
      proof
        assume "batch = []"
        then have "(int (length batch) + 1) * max len this_length = max len this_length" by simp
        also have "\<dots> \<le> mt" using Cons.prems(3) tl by simp
        finally show False using over by simp
      qed
      then have "1 \<le> int (length batch)" by (cases batch) auto
      then have one: "int (length [idx]) < mb" using Cons.prems(6) by simp
      have wb: "within_budget L mt mb batch"
        using batch_tokens_le[OF Cons.prems(5) Cons.prems(2)] Cons.prems(4,6)
        by (simp add: within_budget_def)
      have IH: "\<forall>b\<in>set (fst (approx_loop L mt mb rest [idx] this_length)). within_budget L mt mb b"
        using Cons.IH[of this_length "[idx]"] rest tl one by (simp add: this_length_def)
      show ?thesis using inrange over wb IH
        by (simp add: this_length_def[symmetric] split: prod.splits)
    qed
  qed
qed

text \<open>
  Claim C1, as amended. When \<open>max_batch\<close> is at least 1 and every index of the stream
  that the length table covers has a length between 0 and \<open>max_tokens\<close> (each item fits
  the token budget alone), every batch the generator yields holds at most \<open>max_batch\<close>
  indices, and its size times the longest length in it is at most \<open>max_tokens\<close>.
\<close>

theorem ApproxBatchSampler_budget:
  assumes "1 \<le> max_batch"
    and "\<forall>idx\<in>set sampler. idx < length sample_lengths \<longrightarrow>
           0 \<le> sample_lengths ! idx \<and> sample_lengths ! idx \<le> max_tokens"
  shows "\<forall>b\<in>set (fst (ApproxBatchSampler_iter sampler max_tokens max_batch sample_lengths)).
           within_budget sample_lengths max_tokens max_batch b"
proof (cases "sampler = [] \<or> length sample_lengths \<le> hd sampler")
  case True
  then show ?thesis by (cases sampler) (auto simp: ApproxBatchSampler_iter_def)
next
  case False
  then obtain idx rest where s: "sampler = idx # rest" and "idx < length sample_lengths"
    by (cases sampler) auto
  then have "0 \<le> max_tokens" using assms(2) by fastforce
  then show ?thesis
    unfolding ApproxBatchSampler_iter_def
    using approx_loop_budget[of sampler sample_lengths max_tokens 0 "[]" max_batch] assms
    by simp
qed

theorem ApproxBatchSampler_budget_witness:
  "(1::int) \<le> 10 \<and> ApproxBatchSampler_iter [0,1,2,3,4,5] 8 10 [1,1,2,3,4,5] = ([[0,1,2],[3,4]], None)
   \<and> within_budget [1,1,2,3,4,5] 8 10 [0,1,2] \<and> within_budget [1,1,2,3,4,5] 8 10 [3,4]"
  using ApproxBatchSampler_budget[of 10 "[0,1,2,3,4,5]" "[1,1,2,3,4,5]" 8]
  by (simp add: ApproxBatchSampler_iter_def)

text \<open>
  Without those conditions a budget is broken. With lengths \<open>[10, 10]\<close> and
  \<open>max_tokens = 5\<close> the batch \<open>[0]\<close> is yielded, and it holds 10 tokens. With
  \<open>max_batch = 0\<close> the test \<^verbatim>\<open>len(batch) == self.max_batch\<close> never holds, and for three
  items of length 1 and \<open>max_tokens = 2\<close> the batch \<open>[0, 1]\<close> is yielded.
\<close>

theorem ApproxBatchSampler_budget_counterexample:
  "[0] \<in> set (fst (ApproxBatchSampler_iter [0, 1] 5 10 [10, 10]))
   \<and> \<not> within_budget [10, 10] 5 10 [0]
   \<and> [0, 1] \<in> set (fst (ApproxBatchSampler_iter [0, 1, 2] 2 0 [1, 1, 1]))
   \<and> \<not> within_budget [1, 1, 1] 2 0 [0, 1]"
  by (simp add: ApproxBatchSampler_iter_def within_budget_def batch_tokens_def)

lemma snd_case_cons: "snd (case p of (bs, e) \<Rightarrow> (b # bs, e)) = snd p"
  by (cases p) simp

lemma approx_loop_no_error:
  "\<forall>i\<in>set stream. i < length L \<Longrightarrow> snd (approx_loop L mt mb stream batch len) = None"
  by (induction stream arbitrary: batch len) (simp_all add: Let_def snd_case_cons)

lemma approx_loop_append:
  "\<forall>i\<in>set pre. i < length L \<Longrightarrow>
   approx_loop L mt mb (pre @ s) batch len =
     (fst (approx_loop L mt mb pre batch len)
        @ fst (approx_loop L mt mb s (fst (approx_pending L mt mb pre batch len))
                 (snd (approx_pending L mt mb pre batch len))),
      snd (approx_loop L mt mb s (fst (approx_pending L mt mb pre batch len))
                 (snd (approx_pending L mt mb pre batch len))))"
proof (induction pre arbitrary: batch len)
  case Nil
  show ?case by simp
next
  case (Cons idx pre)
  then have inr: "idx < length L" and pre: "\<forall>i\<in>set pre. i < length L" by auto
  define this_length where "this_length = L ! idx"
  show ?case
  proof (cases "(int (length batch) + 1) * max len this_length \<le> mt")
    case fits: True
    show ?thesis
    proof (cases "int (length (batch @ [idx])) = mb")
      case True
      show ?thesis
        using inr fits True Cons.IH[OF pre, of "[]" 0]
        by (simp add: this_length_def Let_def split: prod.splits)
    next
      case False
      show ?thesis
        using inr fits False Cons.IH[OF pre, of "batch @ [idx]" "max len this_length"]
        by (simp add: this_length_def Let_def)
    qed
  next
    case False
    show ?thesis
      using inr False Cons.IH[OF pre, of "[idx]" this_length]
      by (simp add: this_length_def Let_def split: prod.splits)
  qed
qed

lemma approx_loop_oversize:
  assumes "idx < length L" "idx2 < length L" "mt < L ! idx" "0 \<le> mt"
  shows "approx_loop L mt mb (idx # idx2 # rest) batch len =
          (case approx_loop L mt mb rest [idx2] (L ! idx2) of (bs, e) \<Rightarrow> (batch # [idx] # bs, e))"
proof -
  have "mt < max len (L ! idx)" using assms(3) by simp
  moreover have "max len (L ! idx) \<le> (int (length batch) + 1) * max len (L ! idx)"
    using assms(3,4) by (simp add: mult_le_cancel_right1)
  ultimately have a: "\<not> (int (length batch) + 1) * max len (L ! idx) \<le> mt" by linarith
  have "mt < max (L ! idx) (L ! idx2)" using assms(3) by simp
  then have b: "\<not> (int (length [idx]) + 1) * max (L ! idx) (L ! idx2) \<le> mt"
    using assms(4) by simp
  show ?thesis using assms(1,2) a b by (simp split: prod.splits)
qed

text \<open>
  Claim C2, as amended. An item whose length alone exceeds \<open>max_tokens\<close> raises nothing.
  When all indices of the stream are covered by the length table and an oversize item
  \<open>idx\<close> is followed by another item \<open>idx2\<close>, the generator yields, in this order: the
  batches it yields on the items before \<open>idx\<close>; the batch pending at that point, as it
  is, even if it is empty; the batch \<open>[idx]\<close> of the oversize item alone, which is over
  the token budget; and what the loop yields on the remaining items with \<open>[idx2]\<close> as
  its pending batch. It ends without an exception.
\<close>

theorem ApproxBatchSampler_oversize_item:
  assumes "\<forall>i\<in>set sampler. i < length sample_lengths"
    and "sampler = pre @ idx # idx2 # rest"
    and "max_tokens < sample_lengths ! idx" "0 \<le> max_tokens"
  shows "ApproxBatchSampler_iter sampler max_tokens max_batch sample_lengths =
           (fst (ApproxBatchSampler_iter pre max_tokens max_batch sample_lengths)
              @ fst (approx_pending sample_lengths max_tokens max_batch pre [] 0)
              # [idx]
              # fst (approx_loop sample_lengths max_tokens max_batch rest [idx2]
                       (sample_lengths ! idx2)),
            None)
       \<and> snd (ApproxBatchSampler_iter sampler max_tokens max_batch sample_lengths) = None
       \<and> [idx] \<in> set (fst (ApproxBatchSampler_iter sampler max_tokens max_batch sample_lengths))
       \<and> max_tokens < batch_tokens sample_lengths [idx]"
proof -
  have pre: "\<forall>i\<in>set pre. i < length sample_lengths"
    and i1: "idx < length sample_lengths" and i2: "idx2 < length sample_lengths"
    and rest: "\<forall>i\<in>set rest. i < length sample_lengths"
    using assms(1,2) by auto
  define pending where "pending = fst (approx_pending sample_lengths max_tokens max_batch pre [] 0)"
  define plen where "plen = snd (approx_pending sample_lengths max_tokens max_batch pre [] 0)"
  define tail where
    "tail = approx_loop sample_lengths max_tokens max_batch rest [idx2] (sample_lengths ! idx2)"
  have t: "snd tail = None"
    unfolding tail_def by (rule approx_loop_no_error[OF rest])
  have over: "approx_loop sample_lengths max_tokens max_batch (idx # idx2 # rest) pending plen =
      (pending # [idx] # fst tail, None)"
    using approx_loop_oversize[OF i1 i2 assms(3,4), of max_batch rest pending plen] t
    by (simp add: tail_def split: prod.splits)
  have "approx_loop sample_lengths max_tokens max_batch (pre @ idx # idx2 # rest) [] 0 =
      (fst (approx_loop sample_lengths max_tokens max_batch pre [] 0)
         @ pending # [idx] # fst tail, None)"
    using approx_loop_append[OF pre, of max_tokens max_batch "idx # idx2 # rest" "[]" 0] over
    by (simp add: pending_def plen_def)
  then have main: "ApproxBatchSampler_iter sampler max_tokens max_batch sample_lengths =
      (fst (ApproxBatchSampler_iter pre max_tokens max_batch sample_lengths)
         @ pending # [idx] # fst tail, None)"
    by (simp add: ApproxBatchSampler_iter_def assms(2))
  have "max_tokens < batch_tokens sample_lengths [idx]"
    using assms(3) by (simp add: batch_tokens_def)
  then show ?thesis
    using main by (simp add: pending_def tail_def)
qed

theorem ApproxBatchSampler_oversize_item_witness:
  "ApproxBatchSampler_iter [0, 1, 2] 5 10 [3, 10, 4] = ([[0], [1]], None)
   \<and> approx_pending [3, 10, 4] 5 10 [0] [] 0 = ([0], 3)
   \<and> ApproxBatchSampler_iter [1, 2] 5 10 [3, 10, 4] = ([[], [1]], None)
   \<and> approx_pending [3, 10, 4] 5 10 [] [] 0 = ([], 0)
   \<and> (5::int) < batch_tokens [3, 10, 4] [1]"
proof -
  have a: "ApproxBatchSampler_iter [0, 1, 2] 5 10 [3, 10, 4] =
      (fst (ApproxBatchSampler_iter [0] 5 10 [3, 10, 4])
         @ fst (approx_pending [3, 10, 4] 5 10 [0] [] 0) # [1]
         # fst (approx_loop [3, 10, 4] 5 10 [] [2] ([3, 10, 4] ! 2)), None)"
    and lt: "(5::int) < batch_tokens [3, 10, 4] [1]"
    using ApproxBatchSampler_oversize_item[of "[0, 1, 2]" "[3, 10, 4]" "[0]" 1 2 "[]" 5 10]
    by simp_all
  have b: "ApproxBatchSampler_iter [1, 2] 5 10 [3, 10, 4] =
      (fst (ApproxBatchSampler_iter [] 5 10 [3, 10, 4])
         @ fst (approx_pending [3, 10, 4] 5 10 [] [] 0) # [1]
         # fst (approx_loop [3, 10, 4] 5 10 [] [2] ([3, 10, 4] ! 2)), None)"
    using ApproxBatchSampler_oversize_item[of "[1, 2]" "[3, 10, 4]" "[]" 1 2 "[]" 5 10]
    by simp
  have p1: "approx_pending [3, 10, 4] 5 10 [0] [] 0 = ([0], 3)" by simp
  have p0: "approx_pending [3, 10, 4] 5 10 [] [] 0 = ([], 0)" by simp
  have y1: "fst (ApproxBatchSampler_iter [0] 5 10 [3, 10, 4]) = []"
    by (simp add: ApproxBatchSampler_iter_def)
  have y0: "fst (ApproxBatchSampler_iter [] 5 10 [3, 10, 4]) = []"
    by (simp add: ApproxBatchSampler_iter_def)
  show ?thesis
    using a b lt unfolding p1 p0 y1 y0 by simp
qed

text \<open>
  With \<open>max_batch = 1\<close>, \<open>max_tokens = 5\<close> and two items of length 10 the generator
  yields the empty batch and then the over-budget batch \<open>[0]\<close>, and ends normally.
\<close>

theorem ApproxBatchSampler_no_budget_error_counterexample:
  "ApproxBatchSampler_iter [0, 1] 5 1 [10, 10] = ([[], [0]], None)
   \<and> (5::int) < batch_tokens [10, 10] [0]"
  by (simp add: ApproxBatchSampler_iter_def batch_tokens_def)

section \<open>Properties of padding and of the sequence collaters\<close>

lemma pad_rows_eq:
  "length outp = row + length ts \<Longrightarrow>
   pad_rows row ts outp =
     take row outp @ map (\<lambda>(t, out). t @ drop (length t) out) (zip ts (drop row outp))"
proof (induction ts arbitrary: row outp)
  case Nil
  then show ?case by simp
next
  case (Cons t ts)
  let ?o' = "outp[row := t @ drop (length t) (outp ! row)]"
  have len: "length ?o' = Suc row + length ts" using Cons.prems by simp
  have row: "row < length outp" using Cons.prems by simp
  have d: "drop row outp = outp ! row # drop (Suc row) outp"
    using row by (simp add: Cons_nth_drop_Suc)
  have "pad_rows row (t # ts) outp = pad_rows (Suc row) ts ?o'" by simp
  also have "\<dots> = take (Suc row) ?o' @
      map (\<lambda>(t, out). t @ drop (length t) out) (zip ts (drop (Suc row) ?o'))"
    using Cons.IH[OF len] .
  also have "take (Suc row) ?o' = take row outp @ [t @ drop (length t) (outp ! row)]"
    using row by (simp add: take_Suc_conv_app_nth)
  also have "drop (Suc row) ?o' = drop (Suc row) outp" by simp
  finally show ?case using d by simp
qed

lemma pad_tokenized_eq:
  assumes "ts \<noteq> []"
  shows "pad_tokenized ts v =
           Inr (map (\<lambda>t. t @ replicate (Max (set (map length ts)) - length t) v) ts)"
proof -
  let ?M = "Max (set (map length ts))"
  have le: "length t \<le> ?M" if "t \<in> set ts" for t
    using that by (intro Max_ge) auto
  have "pad_rows 0 ts (replicate (length ts) (replicate ?M v)) =
          map (\<lambda>(t, out). t @ drop (length t) out) (zip ts (replicate (length ts) (replicate ?M v)))"
    by (subst pad_rows_eq) simp_all
  also have "\<dots> = map (\<lambda>t. t @ replicate (?M - length t) v) ts"
    by (rule nth_equalityI) (simp_all)
  finally show ?thesis using assms by (simp add: pad_tokenized_def Let_def)
qed

lemma tokenize_length: "tokenize alphabet s = Inr t \<Longrightarrow> length t = length s"
  by (induction s arbitrary: t) (auto split: sum.splits)

lemma tokenize_all_lengths:
  "tokenize_all alphabet ss = Inr ts \<Longrightarrow> map length ts = map length ss"
  by (induction ss arbitrary: ts) (auto split: sum.splits dest: tokenize_length)

lemma tokenize_all_length: "tokenize_all alphabet ss = Inr ts \<Longrightarrow> length ts = length ss"
  using tokenize_all_lengths[of alphabet ss ts] by (metis length_map)

lemma str_index_mem: "c \<in> set alphabet \<Longrightarrow> \<exists>i. str_index alphabet c = Inr i"
  by (induction alphabet) auto

text \<open>
  Claim C9. For a non-empty batch whose sequences all have the same length, and an
  alphabet that holds the \<open>PAD\<close> symbol (as the data model of the spec requires),
  \<^verbatim>\<open>SimpleCollater._prep\<close> returns the same with \<open>pad = True\<close> as with \<open>pad = False\<close>:
  the same tensor, or the same tokenization error.
\<close>

theorem SimpleCollater_pad_idempotent:
  assumes "sequences \<noteq> []"
    and "\<forall>s\<in>set sequences. length s = length (hd sequences)"
    and "PAD C \<in> set alphabet"
  shows "SimpleCollater_prep C alphabet True sequences =
         SimpleCollater_prep C alphabet False sequences"
proof (cases "tokenize_all alphabet sequences")
  case (Inl e)
  then show ?thesis by (simp add: SimpleCollater_prep_def)
next
  case (Inr seqs)
  from str_index_mem[OF assms(3)] obtain pad_idx where
    pi: "str_index alphabet (PAD C) = Inr pad_idx" by blast
  have lens: "map length seqs = map length sequences" by (rule tokenize_all_lengths[OF Inr])
  then have len: "length seqs = length sequences" by (metis length_map)
  then have ne: "seqs \<noteq> []" using assms(1) by auto
  have same: "length t = length (hd sequences)" if "t \<in> set seqs" for t
  proof -
    from that obtain i where i: "i < length seqs" "t = seqs ! i" by (auto simp: in_set_conv_nth)
    then have "length t = map length seqs ! i" by simp
    also have "\<dots> = length (sequences ! i)" using lens i len by simp
    finally show ?thesis using assms(2) i len by simp
  qed
  have hd: "length (hd seqs) = length (hd sequences)" using same ne by simp
  have "set (map length seqs) = {length (hd sequences)}"
    using same ne by (cases seqs) auto
  then have M: "Max (set (map length seqs)) = length (hd sequences)" by simp
  have "pad_tokenized seqs pad_idx = Inr (map (\<lambda>t. t @ replicate (length (hd sequences) - length t) pad_idx) seqs)"
    using pad_tokenized_eq[OF ne, of pad_idx] M by simp
  also have "map (\<lambda>t. t @ replicate (length (hd sequences) - length t) pad_idx) seqs = seqs"
    by (rule map_idI) (simp add: same)
  finally have p: "pad_tokenized seqs pad_idx = Inr seqs" .
  have s: "torch_stack seqs = Inr seqs"
    using ne same hd by (simp add: torch_stack_def list_all_iff)
  show ?thesis using Inr pi p s by (simp add: SimpleCollater_prep_def)
qed


theorem SimpleCollater_pad_idempotent_witness:
  "SimpleCollater_prep \<lparr>PAD = CHR ''-'', START = CHR ''@'', STOP = CHR ''*'', MASK = CHR ''#'',
      ALL_AAS = ''ACDE''\<rparr> ''ACDE-@*#'' True [''ACE'', ''DEA''] = Inr [[0, 1, 3], [2, 3, 0]]
   \<and> SimpleCollater_prep \<lparr>PAD = CHR ''-'', START = CHR ''@'', STOP = CHR ''*'', MASK = CHR ''#'',
      ALL_AAS = ''ACDE''\<rparr> ''ACDE-@*#'' False [''ACE'', ''DEA''] = Inr [[0, 1, 3], [2, 3, 0]]"
  using SimpleCollater_pad_idempotent[of "[''ACE'', ''DEA'']"
      "\<lparr>PAD = CHR ''-'', START = CHR ''@'', STOP = CHR ''*'', MASK = CHR ''#'', ALL_AAS = ''ACDE''\<rparr>"
      "''ACDE-@*#''"]
  by (simp add: SimpleCollater_prep_def torch_stack_def)

lemma tokenize_all_nth:
  "tokenize_all alphabet ss = Inr ts \<Longrightarrow> i < length ss \<Longrightarrow> tokenize alphabet (ss ! i) = Inr (ts ! i)"
proof (induction ss arbitrary: ts i)
  case Nil
  then show ?case by simp
next
  case (Cons s ss)
  then show ?case by (cases i) (auto split: sum.splits)
qed

lemma pad_tokenized_Inr:
  assumes "pad_tokenized ts v = Inr P"
  shows "ts \<noteq> [] \<and> P = map (\<lambda>t. t @ replicate (Max (set (map length ts)) - length t) v) ts"
proof -
  have ne: "ts \<noteq> []" using assms by (auto simp: pad_tokenized_def)
  then show ?thesis using pad_tokenized_eq[OF ne, of v] assms by simp
qed

lemma tokenize_and_mask_Inr:
  assumes "tokenize_and_mask C alphabet src tgt = Inr (S, T, K)"
  shows "\<exists>pad_idx src1 tgt1.
           str_index alphabet (PAD C) = Inr pad_idx \<and>
           tokenize_all alphabet src = Inr src1 \<and> tokenize_all alphabet tgt = Inr tgt1 \<and>
           src \<noteq> [] \<and> tgt \<noteq> [] \<and>
           S = map (\<lambda>t. t @ replicate (Max (set (map length src)) - length t) pad_idx) src1 \<and>
           T = map (\<lambda>t. t @ replicate (Max (set (map length tgt)) - length t) pad_idx) tgt1 \<and>
           K = map (\<lambda>t. replicate (length t) 1 @ replicate (Max (set (map length tgt)) - length t) 0) tgt1"
proof -
  from assms obtain pad_idx src1 tgt1 where
    pi: "str_index alphabet (PAD C) = Inr pad_idx"
    and s1: "tokenize_all alphabet src = Inr src1"
    and t1: "tokenize_all alphabet tgt = Inr tgt1"
    and S: "pad_tokenized src1 pad_idx = Inr S"
    and T: "pad_tokenized tgt1 pad_idx = Inr T"
    and K: "pad_tokenized (map (\<lambda>t. replicate (length t) (1::nat)) tgt1) 0 = Inr K"
    by (auto simp: tokenize_and_mask_def Let_def split: sum.splits)
  have ls: "map length src1 = map length src" and lt: "map length tgt1 = map length tgt"
    using s1 t1 by (auto dest: tokenize_all_lengths)
  have lk: "map length (map (\<lambda>t. replicate (length t) (1::nat)) tgt1) = map length tgt"
    using lt by (simp add: comp_def)
  have "src1 \<noteq> []" "tgt1 \<noteq> []" using pad_tokenized_Inr[OF S] pad_tokenized_Inr[OF T] by auto
  then have ne: "src \<noteq> []" "tgt \<noteq> []" using ls lt by auto
  show ?thesis
    using pi s1 t1 ne pad_tokenized_Inr[OF S] pad_tokenized_Inr[OF T] pad_tokenized_Inr[OF K]
    by (simp add: ls lt lk comp_def)
qed

lemma Max_Suc_lengths:
  assumes "xs \<noteq> []"
  shows "Max (set (map (\<lambda>x. Suc (length x)) xs)) = Suc (Max (set (map length xs)))"
proof -
  have "set (map (\<lambda>x. Suc (length x)) xs) = Suc ` set (map length xs)" by auto
  then have "Max (set (map (\<lambda>x. Suc (length x)) xs)) = Max (Suc ` set (map length xs))" by simp
  also have "\<dots> = Suc (Max (set (map length xs)))"
    using assms by (intro mono_Max_commute[symmetric]) (auto simp: mono_def)
  finally show ?thesis .
qed

lemma tokenize_and_mask_shape:
  assumes "tokenize_and_mask C alphabet src tgt = Inr (S, T, K)"
    and "map length src = map length tgt"
  shows "has_shape S (length src, Max (set (map length src)))
       \<and> has_shape T (length src, Max (set (map length src)))
       \<and> has_shape K (length src, Max (set (map length src)))"
proof -
  let ?M = "Max (set (map length src))"
  from tokenize_and_mask_Inr[OF assms(1)] obtain pad_idx src1 tgt1 where
    s1: "tokenize_all alphabet src = Inr src1" and t1: "tokenize_all alphabet tgt = Inr tgt1"
    and S: "S = map (\<lambda>t. t @ replicate (Max (set (map length src)) - length t) pad_idx) src1"
    and T: "T = map (\<lambda>t. t @ replicate (Max (set (map length tgt)) - length t) pad_idx) tgt1"
    and K: "K = map (\<lambda>t. replicate (length t) 1 @ replicate (Max (set (map length tgt)) - length t) 0) tgt1"
    by blast
  have ls: "map length src1 = map length src" and lt: "map length tgt1 = map length src"
    using s1 t1 assms(2) by (auto dest: tokenize_all_lengths)
  have n: "length src1 = length src" "length tgt1 = length src"
    using ls lt by (metis length_map)+
  have le1: "length t \<le> ?M" if "t \<in> set src1" for t
  proof -
    have "length t \<in> set (map length src1)" using that by simp
    then show ?thesis unfolding ls by (intro Max_ge) auto
  qed
  have le2: "length t \<le> ?M" if "t \<in> set tgt1" for t
  proof -
    have "length t \<in> set (map length tgt1)" using that by simp
    then show ?thesis unfolding lt by (intro Max_ge) auto
  qed
  show ?thesis
    unfolding S T K assms(2)[symmetric]
    using le1 le2 n by (simp add: has_shape_def list_all_iff)
qed

text \<open>
  Claim C10. Whenever \<^verbatim>\<open>LMCollater._prep\<close> or \<^verbatim>\<open>AncestorCollater._prep\<close> returns, the tensors
  \<open>src\<close>, \<open>tgt\<close> and \<open>mask\<close> have one and the same shape \<open>(batch_size, max_len)\<close>:
  the batch size is the number of examples, and \<open>max_len\<close> is the longest sequence
  length plus 1 for the next-token collater and the largest sequence length plus
  ancestor length plus 2 for the ancestor collater. (Both raise on an empty batch.)
\<close>

theorem collaters_same_shape:
  "(LMCollater_prep C alphabet backwards sequences = Inr (src, tgt, msk) \<longrightarrow>
      has_shape src (length sequences, Max (set (map length sequences)) + 1) \<and>
      has_shape tgt (length sequences, Max (set (map length sequences)) + 1) \<and>
      has_shape msk (length sequences, Max (set (map length sequences)) + 1))
   \<and> (AncestorCollater_prep C alphabet backwards seqs ancestors = Inr (src', tgt', msk') \<longrightarrow>
      has_shape src' (length (zip seqs ancestors),
         Max (set (map (\<lambda>(s, a). length s + length a + 2) (zip seqs ancestors)))) \<and>
      has_shape tgt' (length (zip seqs ancestors),
         Max (set (map (\<lambda>(s, a). length s + length a + 2) (zip seqs ancestors)))) \<and>
      has_shape msk' (length (zip seqs ancestors),
         Max (set (map (\<lambda>(s, a). length s + length a + 2) (zip seqs ancestors)))))"
proof (intro conjI impI)
  assume lm: "LMCollater_prep C alphabet backwards sequences = Inr (src, tgt, msk)"
  obtain s t where st: "LMCollater_split C backwards sequences = (s, t)" by fastforce
  then have tm: "tokenize_and_mask C alphabet s t = Inr (src, tgt, msk)"
    using lm by (simp add: LMCollater_prep_def)
  have eq: "map length s = map length t" and n: "length s = length sequences"
    and ls: "map length s = map (\<lambda>x. Suc (length x)) sequences"
    using st by (auto simp: LMCollater_split_def split: if_splits)
  have "s \<noteq> []" using tokenize_and_mask_Inr[OF tm] by blast
  then have ne: "sequences \<noteq> []" using n by auto
  have M: "Max (set (map length s)) = Max (set (map length sequences)) + 1"
    unfolding ls using Max_Suc_lengths[OF ne] by simp
  from tokenize_and_mask_shape[OF tm eq]
  show "has_shape src (length sequences, Max (set (map length sequences)) + 1)"
    and "has_shape tgt (length sequences, Max (set (map length sequences)) + 1)"
    and "has_shape msk (length sequences, Max (set (map length sequences)) + 1)"
    unfolding M n by blast+
next
  let ?z = "zip seqs ancestors"
  let ?M = "Max (set (map (\<lambda>(s, a). length s + length a + 2) ?z))"
  assume an: "AncestorCollater_prep C alphabet backwards seqs ancestors = Inr (src', tgt', msk')"
  define z1 where "z1 = zip (if backwards then map rev seqs else seqs)
                            (if backwards then map rev ancestors else ancestors)"
  define s where "s = map (\<lambda>(s, a). START C # s @ STOP C # a) z1"
  define t where "t = map (\<lambda>(s, a). s @ STOP C # a @ [STOP C]) z1"
  have tm: "tokenize_and_mask C alphabet s t = Inr (src', tgt', msk')"
    using an by (simp add: AncestorCollater_prep_def Let_def s_def t_def z1_def)
  have z1: "map (\<lambda>(s, a). length s + length a + 2) z1 = map (\<lambda>(s, a). length s + length a + 2) ?z"
    by (rule nth_equalityI) (auto simp: z1_def)
  have n: "length s = length ?z" by (simp add: s_def z1_def)
  have ls: "map length s = map (\<lambda>(s, a). length s + length a + 2) ?z"
    unfolding z1[symmetric] s_def by (simp add: comp_def case_prod_beta)
  have eq: "map length s = map length t"
    unfolding s_def t_def by (simp add: comp_def case_prod_beta)
  from tokenize_and_mask_shape[OF tm eq]
  show "has_shape src' (length ?z, ?M)" and "has_shape tgt' (length ?z, ?M)"
    and "has_shape msk' (length ?z, ?M)"
    unfolding ls n by blast+
qed


theorem collaters_same_shape_witness:
  "LMCollater_prep \<lparr>PAD = CHR ''-'', START = CHR ''@'', STOP = CHR ''*'', MASK = CHR ''#'',
      ALL_AAS = ''ACDE''\<rparr> ''ACDE-@*#'' False [''ACE'', ''D'']
     = Inr ([[5, 0, 1, 3], [5, 2, 4, 4]], [[0, 1, 3, 6], [2, 6, 4, 4]], [[1, 1, 1, 1], [1, 1, 0, 0]])
   \<and> has_shape [[5, 0, 1, 3], [5, 2, 4, 4::nat]] (2, 4)
   \<and> has_shape [[0, 1, 3, 6], [2, 6, 4, 4::nat]] (2, 4)
   \<and> has_shape [[1, 1, 1, 1], [1, 1, 0, 0::nat]] (2, 4)
   \<and> AncestorCollater_prep \<lparr>PAD = CHR ''-'', START = CHR ''@'', STOP = CHR ''*'', MASK = CHR ''#'',
      ALL_AAS = ''ACDE''\<rparr> ''ACDE-@*#'' False [''ACE'', ''D''] [''A'', ''CC'']
     = Inr ([[5, 0, 1, 3, 6, 0], [5, 2, 6, 1, 1, 4]], [[0, 1, 3, 6, 0, 6], [2, 6, 1, 1, 6, 4]],
            [[1, 1, 1, 1, 1, 1], [1, 1, 1, 1, 1, 0]])
   \<and> has_shape [[5, 0, 1, 3, 6, 0], [5, 2, 6, 1, 1, 4::nat]] (2, 6)
   \<and> has_shape [[0, 1, 3, 6, 0, 6], [2, 6, 1, 1, 6, 4::nat]] (2, 6)
   \<and> has_shape [[1, 1, 1, 1, 1, 1], [1, 1, 1, 1, 1, 0::nat]] (2, 6)"
proof -
  let ?C = "\<lparr>PAD = CHR ''-'', START = CHR ''@'', STOP = CHR ''*'', MASK = CHR ''#'',
      ALL_AAS = ''ACDE''\<rparr>"
  have lm: "LMCollater_prep ?C ''ACDE-@*#'' False [''ACE'', ''D'']
     = Inr ([[5, 0, 1, 3], [5, 2, 4, 4]], [[0, 1, 3, 6], [2, 6, 4, 4]], [[1, 1, 1, 1], [1, 1, 0, 0]])"
    by (simp add: LMCollater_prep_def LMCollater_split_def tokenize_and_mask_def
        pad_tokenized_def)
  have an: "AncestorCollater_prep ?C ''ACDE-@*#'' False [''ACE'', ''D''] [''A'', ''CC'']
     = Inr ([[5, 0, 1, 3, 6, 0], [5, 2, 6, 1, 1, 4]], [[0, 1, 3, 6, 0, 6], [2, 6, 1, 1, 6, 4]],
            [[1, 1, 1, 1, 1, 1], [1, 1, 1, 1, 1, 0]])"
    by (simp add: AncestorCollater_prep_def tokenize_and_mask_def pad_tokenized_def)
  show ?thesis
    using collaters_same_shape[of ?C "''ACDE-@*#''" False "[''ACE'', ''D'']"
        "[[5, 0, 1, 3], [5, 2, 4, 4]]" "[[0, 1, 3, 6], [2, 6, 4, 4]]" "[[1, 1, 1, 1], [1, 1, 0, 0]]"
        "[''ACE'', ''D'']" "[''A'', ''CC'']"
        "[[5, 0, 1, 3, 6, 0], [5, 2, 6, 1, 1, 4]]" "[[0, 1, 3, 6, 0, 6], [2, 6, 1, 1, 6, 4]]"
        "[[1, 1, 1, 1, 1, 1], [1, 1, 1, 1, 1, 0]]"] lm an
    by (simp add: eval_nat_numeral)
qed

text \<open>
  Claim C7. Whenever \<^verbatim>\<open>LMCollater._prep\<close> returns, row \<open>i\<close> of \<open>src\<close> is the tokenized
  \<open>START + sequence\<close> and row \<open>i\<close> of \<open>tgt\<close> the tokenized \<open>sequence + STOP\<close> (forwards), or
  the tokenized \<open>STOP + reverse(sequence)\<close> and \<open>reverse(sequence) + START\<close> (backwards),
  each followed by the \<open>PAD\<close> id up to the longest row; row \<open>i\<close> of the mask is 1 on
  the \<open>length + 1\<close> real target positions and 0 on the padding columns.
\<close>

theorem LMCollater_prep_rows:
  assumes "LMCollater_prep C alphabet backwards sequences = Inr (src, tgt, msk)"
    and "i < length sequences"
  shows "\<exists>pad_idx ts_src ts_tgt.
       str_index alphabet (PAD C) = Inr pad_idx
     \<and> tokenize alphabet (if backwards then STOP C # rev (sequences ! i)
                           else START C # sequences ! i) = Inr ts_src
     \<and> tokenize alphabet (if backwards then rev (sequences ! i) @ [START C]
                           else sequences ! i @ [STOP C]) = Inr ts_tgt
     \<and> src ! i = ts_src @ replicate (Max (set (map length sequences)) - length (sequences ! i)) pad_idx
     \<and> tgt ! i = ts_tgt @ replicate (Max (set (map length sequences)) - length (sequences ! i)) pad_idx
     \<and> msk ! i = replicate (length (sequences ! i) + 1) 1
                 @ replicate (Max (set (map length sequences)) - length (sequences ! i)) 0"
proof -
  define s where "s = (if backwards then map (\<lambda>s. STOP C # rev s) sequences
                       else map (\<lambda>s. START C # s) sequences)"
  define t where "t = (if backwards then map (\<lambda>s. rev s @ [START C]) sequences
                       else map (\<lambda>s. s @ [STOP C]) sequences)"
  have tm: "tokenize_and_mask C alphabet s t = Inr (src, tgt, msk)"
    using assms(1) by (simp add: LMCollater_prep_def LMCollater_split_def s_def t_def split: if_splits)
  have ls: "map length s = map (\<lambda>x. Suc (length x)) sequences"
    and lt: "map length t = map (\<lambda>x. Suc (length x)) sequences"
    by (simp_all add: s_def t_def comp_def)
  have ne: "sequences \<noteq> []" using assms(2) by auto
  have M: "Max (set (map length s)) = Suc (Max (set (map length sequences)))"
    "Max (set (map length t)) = Suc (Max (set (map length sequences)))"
    unfolding ls lt using Max_Suc_lengths[OF ne] by simp_all
  from tokenize_and_mask_Inr[OF tm] obtain pad_idx src1 tgt1 where
    pi: "str_index alphabet (PAD C) = Inr pad_idx"
    and s1: "tokenize_all alphabet s = Inr src1" and t1: "tokenize_all alphabet t = Inr tgt1"
    and S: "src = map (\<lambda>t. t @ replicate (Max (set (map length s)) - length t) pad_idx) src1"
    and T: "tgt = map (\<lambda>u. u @ replicate (Max (set (map length t)) - length u) pad_idx) tgt1"
    and K: "msk = map (\<lambda>u. replicate (length u) 1 @ replicate (Max (set (map length t)) - length u) 0) tgt1"
    by blast
  have i_s: "i < length s" and i_t: "i < length t" using assms(2) by (simp_all add: s_def t_def)
  have n1: "i < length src1" "i < length tgt1"
    using tokenize_all_length[OF s1] tokenize_all_length[OF t1] i_s i_t by simp_all
  have ts: "tokenize alphabet (s ! i) = Inr (src1 ! i)" by (rule tokenize_all_nth[OF s1 i_s])
  have tt: "tokenize alphabet (t ! i) = Inr (tgt1 ! i)" by (rule tokenize_all_nth[OF t1 i_t])
  have l1: "length (src1 ! i) = Suc (length (sequences ! i))"
    using tokenize_length[OF ts] assms(2) by (simp add: s_def)
  have l2: "length (tgt1 ! i) = Suc (length (sequences ! i))"
    using tokenize_length[OF tt] assms(2) by (simp add: t_def)
  have si: "s ! i = (if backwards then STOP C # rev (sequences ! i) else START C # sequences ! i)"
    and ti: "t ! i = (if backwards then rev (sequences ! i) @ [START C] else sequences ! i @ [STOP C])"
    using assms(2) by (simp_all add: s_def t_def)
  show ?thesis
    using pi ts tt n1 l1 l2 unfolding S T K M si ti by simp
qed

theorem LMCollater_prep_rows_witness:
  "LMCollater_prep \<lparr>PAD = CHR ''-'', START = CHR ''@'', STOP = CHR ''*'', MASK = CHR ''#'',
      ALL_AAS = ''ACDE''\<rparr> ''ACDE-@*#'' True [''ACE'', ''D'']
     = Inr ([[6, 3, 1, 0], [6, 2, 4, 4]], [[3, 1, 0, 5], [2, 5, 4, 4]], [[1, 1, 1, 1], [1, 1, 0, 0]])
   \<and> (\<exists>pad_idx ts_src ts_tgt.
         str_index ''ACDE-@*#'' CHR ''-'' = Inr pad_idx
       \<and> tokenize ''ACDE-@*#'' ''*D'' = Inr ts_src
       \<and> tokenize ''ACDE-@*#'' ''D@'' = Inr ts_tgt
       \<and> [6, 2, 4, 4] = ts_src @ replicate 2 pad_idx
       \<and> [2, 5, 4, 4] = ts_tgt @ replicate 2 pad_idx
       \<and> [1, 1, 0, 0] = replicate 2 1 @ replicate 2 (0::nat))"
proof -
  let ?C = "\<lparr>PAD = CHR ''-'', START = CHR ''@'', STOP = CHR ''*'', MASK = CHR ''#'',
      ALL_AAS = ''ACDE''\<rparr>"
  have lm: "LMCollater_prep ?C ''ACDE-@*#'' True [''ACE'', ''D'']
     = Inr ([[6, 3, 1, 0], [6, 2, 4, 4]], [[3, 1, 0, 5], [2, 5, 4, 4]], [[1, 1, 1, 1], [1, 1, 0, 0]])"
    by (simp add: LMCollater_prep_def LMCollater_split_def tokenize_and_mask_def
        pad_tokenized_def)
  show ?thesis
    using LMCollater_prep_rows[OF lm, of 1] lm by (simp add: eval_nat_numeral)
qed

text \<open>
  On a non-empty batch over the alphabet, with the control symbols in the alphabet,
  the next-token collater returns.
\<close>

lemma tokenize_succeeds: "set s \<subseteq> set alphabet \<Longrightarrow> \<exists>t. tokenize alphabet s = Inr t"
proof (induction s)
  case Nil
  then show ?case by simp
next
  case (Cons c s)
  then obtain t where "tokenize alphabet s = Inr t" by auto
  moreover obtain i where "str_index alphabet c = Inr i"
    using str_index_mem[of c alphabet] Cons.prems by auto
  ultimately show ?case by simp
qed

lemma tokenize_all_succeeds:
  "\<forall>s\<in>set ss. set s \<subseteq> set alphabet \<Longrightarrow> \<exists>ts. tokenize_all alphabet ss = Inr ts"
proof (induction ss)
  case Nil
  then show ?case by simp
next
  case (Cons s ss)
  then obtain ts where "tokenize_all alphabet ss = Inr ts" by auto
  moreover obtain t where "tokenize alphabet s = Inr t"
    using tokenize_succeeds[of s alphabet] Cons.prems by auto
  ultimately show ?case by simp
qed

lemma tokenize_and_mask_succeeds:
  assumes "src \<noteq> []" "length tgt = length src"
    and "\<forall>s\<in>set src. set s \<subseteq> set alphabet" "\<forall>s\<in>set tgt. set s \<subseteq> set alphabet"
    and "PAD C \<in> set alphabet"
  shows "\<exists>r. tokenize_and_mask C alphabet src tgt = Inr r"
proof -
  obtain src1 where s1: "tokenize_all alphabet src = Inr src1"
    using tokenize_all_succeeds[OF assms(3)] by blast
  obtain tgt1 where t1: "tokenize_all alphabet tgt = Inr tgt1"
    using tokenize_all_succeeds[OF assms(4)] by blast
  obtain pad_idx where pi: "str_index alphabet (PAD C) = Inr pad_idx"
    using str_index_mem[OF assms(5)] by blast
  have ne: "src1 \<noteq> []" "tgt1 \<noteq> []"
    using tokenize_all_length[OF s1] tokenize_all_length[OF t1] assms(1,2) by auto
  then have nm: "map (\<lambda>t. replicate (length t) (1::nat)) tgt1 \<noteq> []" by simp
  show ?thesis
    using s1 t1 pi pad_tokenized_eq[OF ne(1), of pad_idx] pad_tokenized_eq[OF ne(2), of pad_idx]
      pad_tokenized_eq[OF nm, of 0]
    by (simp add: tokenize_and_mask_def Let_def)
qed

lemma LMCollater_prep_succeeds:
  assumes "sequences \<noteq> []" and "\<forall>s\<in>set sequences. set s \<subseteq> set alphabet"
    and "PAD C \<in> set alphabet" "START C \<in> set alphabet" "STOP C \<in> set alphabet"
  shows "\<exists>r. LMCollater_prep C alphabet backwards sequences = Inr r"
proof -
  obtain src tgt where st: "LMCollater_split C backwards sequences = (src, tgt)" by fastforce
  have "src \<noteq> []" "length tgt = length src"
    and "\<forall>s\<in>set src. set s \<subseteq> set alphabet" "\<forall>s\<in>set tgt. set s \<subseteq> set alphabet"
    using st assms by (fastforce simp: LMCollater_split_def split: if_splits)+
  from tokenize_and_mask_succeeds[OF this assms(3)] show ?thesis
    using st by (simp add: LMCollater_prep_def)
qed

section \<open>Properties of SortishSampler\<close>

text \<open>
  What the contract of \<^verbatim>\<open>np.argsort\<close> determines: the number of indices, the indices as a
  multiset, and the lengths read along the order, which are the sorted lengths.
\<close>

lemma is_argsort_length: "is_argsort L order \<Longrightarrow> length order = length L"
  unfolding is_argsort_def by (metis length_sort length_upt diff_zero)

lemma is_argsort_mset: "is_argsort L order \<Longrightarrow> mset order = mset [0..<length L]"
  unfolding is_argsort_def by (metis mset_sort)

lemma is_argsort_keys:
  assumes "is_argsort L order"
  shows "map (\<lambda>i. L ! i) order = sort L"
proof -
  have "mset (map (\<lambda>i. L ! i) order) = image_mset (\<lambda>i. L ! i) (mset [0..<length L])"
    by (simp only: mset_map is_argsort_mset[OF assms])
  also have "\<dots> = mset (map (\<lambda>i. L ! i) [0..<length L])" by (simp only: mset_map)
  also have "map (\<lambda>i. L ! i) [0..<length L] = L" by (rule map_nth)
  finally have "mset (map (\<lambda>i. L ! i) order) = mset L" .
  moreover have "sorted (map (\<lambda>i. L ! i) order)" using assms by (simp add: is_argsort_def)
  ultimately show ?thesis by (metis properties_for_sort)
qed

text \<open>
  On the lengths \<open>[3, 1, 4, 1, 5, 9, 2, 6]\<close> only the two indices of length 1 tie, so exactly
  two orders are admissible.
\<close>

lemma scenario_unique:
  "x < 8 \<Longrightarrow> [3, 1, 4, 1, 5, 9, 2, 6 :: int] ! x = 2 \<Longrightarrow> x = 6"
  "x < 8 \<Longrightarrow> [3, 1, 4, 1, 5, 9, 2, 6 :: int] ! x = 3 \<Longrightarrow> x = 0"
  "x < 8 \<Longrightarrow> [3, 1, 4, 1, 5, 9, 2, 6 :: int] ! x = 4 \<Longrightarrow> x = 2"
  "x < 8 \<Longrightarrow> [3, 1, 4, 1, 5, 9, 2, 6 :: int] ! x = 5 \<Longrightarrow> x = 4"
  "x < 8 \<Longrightarrow> [3, 1, 4, 1, 5, 9, 2, 6 :: int] ! x = 6 \<Longrightarrow> x = 7"
  "x < 8 \<Longrightarrow> [3, 1, 4, 1, 5, 9, 2, 6 :: int] ! x = 9 \<Longrightarrow> x = 5"
  "x < 8 \<Longrightarrow> [3, 1, 4, 1, 5, 9, 2, 6 :: int] ! x = 1 \<Longrightarrow> x = 1 \<or> x = 3"
proof -
  have all: "(\<forall>x<8. [3, 1, 4, 1, 5, 9, 2, 6 :: int] ! x = 2 \<longrightarrow> x = 6)
    \<and> (\<forall>x<8. [3, 1, 4, 1, 5, 9, 2, 6 :: int] ! x = 3 \<longrightarrow> x = 0)
    \<and> (\<forall>x<8. [3, 1, 4, 1, 5, 9, 2, 6 :: int] ! x = 4 \<longrightarrow> x = 2)
    \<and> (\<forall>x<8. [3, 1, 4, 1, 5, 9, 2, 6 :: int] ! x = 5 \<longrightarrow> x = 4)
    \<and> (\<forall>x<8. [3, 1, 4, 1, 5, 9, 2, 6 :: int] ! x = 6 \<longrightarrow> x = 7)
    \<and> (\<forall>x<8. [3, 1, 4, 1, 5, 9, 2, 6 :: int] ! x = 9 \<longrightarrow> x = 5)
    \<and> (\<forall>x<8. [3, 1, 4, 1, 5, 9, 2, 6 :: int] ! x = 1 \<longrightarrow> x = 1 \<or> x = 3)"
    by (simp add: eval_nat_numeral All_less_Suc)
  show "x < 8 \<Longrightarrow> [3, 1, 4, 1, 5, 9, 2, 6 :: int] ! x = 2 \<Longrightarrow> x = 6"
    "x < 8 \<Longrightarrow> [3, 1, 4, 1, 5, 9, 2, 6 :: int] ! x = 3 \<Longrightarrow> x = 0"
    "x < 8 \<Longrightarrow> [3, 1, 4, 1, 5, 9, 2, 6 :: int] ! x = 4 \<Longrightarrow> x = 2"
    "x < 8 \<Longrightarrow> [3, 1, 4, 1, 5, 9, 2, 6 :: int] ! x = 5 \<Longrightarrow> x = 4"
    "x < 8 \<Longrightarrow> [3, 1, 4, 1, 5, 9, 2, 6 :: int] ! x = 6 \<Longrightarrow> x = 7"
    "x < 8 \<Longrightarrow> [3, 1, 4, 1, 5, 9, 2, 6 :: int] ! x = 9 \<Longrightarrow> x = 5"
    "x < 8 \<Longrightarrow> [3, 1, 4, 1, 5, 9, 2, 6 :: int] ! x = 1 \<Longrightarrow> x = 1 \<or> x = 3"
    using all by blast+
qed

lemma scenario_orders:
  assumes "is_argsort [3, 1, 4, 1, 5, 9, 2, 6] order"
  shows "order = [1, 3, 6, 0, 2, 4, 7, 5] \<or> order = [3, 1, 6, 0, 2, 4, 7, 5]"
proof -
  let ?L = "[3, 1, 4, 1, 5, 9, 2, 6 :: int]"
  have l8: "length ?L = 8" by simp
  have len: "length order = 8" using is_argsort_length[OF assms] by simp
  then obtain a b c d e f g h where o: "order = [a, b, c, d, e, f, g, h]"
    by (auto simp: eval_nat_numeral length_Suc_conv)
  have ms: "mset order = mset [0..<length ?L]" by (rule is_argsort_mset[OF assms])
  then have "set order = set [0..<length ?L]" by (rule mset_eq_setD)
  then have S: "set order = {0..<8}" by (simp only: set_upt l8)
  have mem: "x < 8" if "x \<in> set order" for x
    using that by (simp only: S atLeastLessThan_iff)
  have lt: "a < 8" "b < 8" "c < 8" "d < 8" "e < 8" "f < 8" "g < 8" "h < 8"
    by (rule mem, simp add: o)+
  have "distinct order" using ms by (metis distinct_upt mset_eq_imp_distinct_iff)
  then have ab: "a \<noteq> b" unfolding o by simp
  have "map (\<lambda>i. ?L ! i) order = sort ?L" by (rule is_argsort_keys[OF assms])
  also have "sort ?L = [1, 1, 2, 3, 4, 5, 6, 9]" by simp
  finally have k: "?L ! a = 1" "?L ! b = 1" "?L ! c = 2" "?L ! d = 3" "?L ! e = 4"
    "?L ! f = 5" "?L ! g = 6" "?L ! h = 9"
    unfolding o by simp_all
  have c: "c = 6" using lt(3) k(3) by (rule scenario_unique(1))
  have d: "d = 0" using lt(4) k(4) by (rule scenario_unique(2))
  have e: "e = 2" using lt(5) k(5) by (rule scenario_unique(3))
  have f: "f = 4" using lt(6) k(6) by (rule scenario_unique(4))
  have g: "g = 7" using lt(7) k(7) by (rule scenario_unique(5))
  have h: "h = 5" using lt(8) k(8) by (rule scenario_unique(6))
  have a: "a = 1 \<or> a = 3" using lt(1) k(1) by (rule scenario_unique(7))
  have b: "b = 1 \<or> b = 3" using lt(2) k(2) by (rule scenario_unique(7))
  from a b ab have "(a = 1 \<and> b = 3) \<or> (a = 3 \<and> b = 1)" by blast
  then show ?thesis unfolding o c d e f g h by blast
qed

lemma buckets_scenario:
  "map (\<lambda>i. take 4 (drop (i * 4) [a, b, c, d, e, f, g, h])) [0..<2]
     = [[a, b, c, d], [e, f, g, h]]"
proof -
  have "[0..<2] = [0, Suc 0]" by (simp add: eval_nat_numeral)
  then show ?thesis by simp
qed

lemma init_scenario:
  assumes "np_argsort sequence_lengths = [a, b, c, d, e, f, g, h]" and "0 < num_repl"
  shows "SortishSampler_init np_argsort sequence_lengths 4 num_repl rnk =
     Inr \<lparr>data = [[a, b, c, d], [e, f, g, h]], num_replicas = num_repl,
          num_samples = ceil_div 8 num_repl, bucket_size = 4, rank = rnk, epoch = 0,
          total_size = ceil_div 8 num_repl * num_repl\<rparr>"
proof -
  have "length (np_argsort sequence_lengths) = 8" by (simp add: assms(1))
  moreover have "ceil_div 8 4 = 2" by (simp add: ceil_div_def)
  ultimately show ?thesis
    using assms(2) by (simp add: SortishSampler_init_def Let_def)
      (simp add: assms(1) buckets_scenario)
qed

lemma is_argsort_scenario:
  "is_argsort [3, 1, 4, 1, 5, 9, 2, 6] [1, 3, 6, 0, 2, 4, 7, 5]"
  "is_argsort [3, 1, 4, 1, 5, 9, 2, 6] [3, 1, 6, 0, 2, 4, 7, 5]"
  by code_simp+

text \<open>
  Claim C4, as amended. For the lengths \<open>[3, 1, 4, 1, 5, 9, 2, 6]\<close> and \<open>bucket_size = 4\<close>,
  whatever order \<^verbatim>\<open>np.argsort\<close> gives to the two indices 1 and 3 of equal length 1, the
  constructor partitions the indices, sorted by ascending length, into two buckets whose
  lengths are \<open>[1, 1, 2, 3]\<close> and \<open>[4, 5, 6, 9]\<close>. The first bucket is \<open>[1, 3, 6, 0]\<close> or
  \<open>[3, 1, 6, 0]\<close>, the second is \<open>[2, 4, 7, 5]\<close>.
\<close>

theorem SortishSampler_init_scenario:
  assumes "is_argsort [3, 1, 4, 1, 5, 9, 2, 6] (np_argsort [3, 1, 4, 1, 5, 9, 2, 6])"
    and "0 < num_repl"
  shows "\<exists>s. SortishSampler_init np_argsort [3, 1, 4, 1, 5, 9, 2, 6] 4 num_repl rnk = Inr s
           \<and> (data s = [[1, 3, 6, 0], [2, 4, 7, 5]] \<or> data s = [[3, 1, 6, 0], [2, 4, 7, 5]])
           \<and> map (map (\<lambda>i. [3, 1, 4, 1, 5, 9, 2, 6] ! i)) (data s)
               = [[1, 1, 2, 3], [4, 5, 6, 9 :: int]]"
proof -
  from scenario_orders[OF assms(1)] show ?thesis
  proof
    assume "np_argsort [3, 1, 4, 1, 5, 9, 2, 6] = [1, 3, 6, 0, 2, 4, 7, 5]"
    from init_scenario[of np_argsort "[3, 1, 4, 1, 5, 9, 2, 6]", OF this assms(2)]
    show ?thesis by simp
  next
    assume "np_argsort [3, 1, 4, 1, 5, 9, 2, 6] = [3, 1, 6, 0, 2, 4, 7, 5]"
    from init_scenario[of np_argsort "[3, 1, 4, 1, 5, 9, 2, 6]", OF this assms(2)]
    show ?thesis by simp
  qed
qed

text \<open>
  Both admissible orders satisfy the contract of \<^verbatim>\<open>np.argsort\<close>; with \<open>num_replicas = 1\<close>
  and \<open>rank = 0\<close> the constructor returns these samplers.
\<close>

theorem SortishSampler_init_scenario_witness:
  "is_argsort [3, 1, 4, 1, 5, 9, 2, 6] [1, 3, 6, 0, 2, 4, 7, 5]
   \<and> SortishSampler_init (\<lambda>lens. [1, 3, 6, 0, 2, 4, 7, 5]) [3, 1, 4, 1, 5, 9, 2, 6] 4 1 0 =
       Inr \<lparr>data = [[1, 3, 6, 0], [2, 4, 7, 5]], num_replicas = 1, num_samples = 8,
            bucket_size = 4, rank = 0, epoch = 0, total_size = 8\<rparr>
   \<and> map (map (\<lambda>i. [3, 1, 4, 1, 5, 9, 2, 6] ! i)) [[1, 3, 6, 0], [2, 4, 7, 5]]
       = [[1, 1, 2, 3], [4, 5, 6, 9 :: int]]
   \<and> is_argsort [3, 1, 4, 1, 5, 9, 2, 6] [3, 1, 6, 0, 2, 4, 7, 5]
   \<and> SortishSampler_init (\<lambda>lens. [3, 1, 6, 0, 2, 4, 7, 5]) [3, 1, 4, 1, 5, 9, 2, 6] 4 1 0 =
       Inr \<lparr>data = [[3, 1, 6, 0], [2, 4, 7, 5]], num_replicas = 1, num_samples = 8,
            bucket_size = 4, rank = 0, epoch = 0, total_size = 8\<rparr>
   \<and> map (map (\<lambda>i. [3, 1, 4, 1, 5, 9, 2, 6] ! i)) [[3, 1, 6, 0], [2, 4, 7, 5]]
       = [[1, 1, 2, 3], [4, 5, 6, 9 :: int]]"
proof -
  have pos: "(0::nat) < 1" by simp
  have c: "ceil_div 8 1 = 8" by (simp add: ceil_div_def)
  have i1: "SortishSampler_init (\<lambda>lens. [1, 3, 6, 0, 2, 4, 7, 5]) [3, 1, 4, 1, 5, 9, 2, 6] 4 1 0 =
       Inr \<lparr>data = [[1, 3, 6, 0], [2, 4, 7, 5]], num_replicas = 1, num_samples = 8,
            bucket_size = 4, rank = 0, epoch = 0, total_size = 8\<rparr>"
    using init_scenario[of "\<lambda>lens. [1, 3, 6, 0, 2, 4, 7, 5]" _ 1 3 6 0 2 4 7 5 1 0] c by simp
  have i2: "SortishSampler_init (\<lambda>lens. [3, 1, 6, 0, 2, 4, 7, 5]) [3, 1, 4, 1, 5, 9, 2, 6] 4 1 0 =
       Inr \<lparr>data = [[3, 1, 6, 0], [2, 4, 7, 5]], num_replicas = 1, num_samples = 8,
            bucket_size = 4, rank = 0, epoch = 0, total_size = 8\<rparr>"
    using init_scenario[of "\<lambda>lens. [3, 1, 6, 0, 2, 4, 7, 5]" _ 3 1 6 0 2 4 7 5 1 0] c by simp
  from SortishSampler_init_scenario[of "\<lambda>lens. [1, 3, 6, 0, 2, 4, 7, 5]" 1 0,
      OF is_argsort_scenario(1) pos]
  have m1: "map (map (\<lambda>i. [3, 1, 4, 1, 5, 9, 2, 6] ! i)) [[1, 3, 6, 0], [2, 4, 7, 5]]
       = [[1, 1, 2, 3], [4, 5, 6, 9 :: int]]"
    unfolding i1 by simp
  from SortishSampler_init_scenario[of "\<lambda>lens. [3, 1, 6, 0, 2, 4, 7, 5]" 1 0,
      OF is_argsort_scenario(2) pos]
  have m2: "map (map (\<lambda>i. [3, 1, 4, 1, 5, 9, 2, 6] ! i)) [[3, 1, 6, 0], [2, 4, 7, 5]]
       = [[1, 1, 2, 3], [4, 5, 6, 9 :: int]]"
    unfolding i2 by simp
  show ?thesis
    using i1 i2 m1 m2 is_argsort_scenario by (simp only: simp_thms)
qed

text \<open>
  The buckets are not the first four and the last four dataset indices, and their lengths
  are not \<open>[3, 1, 4, 1]\<close> and \<open>[5, 9, 2, 6]\<close>, for either admissible result of \<^verbatim>\<open>np.argsort\<close>.
\<close>

theorem SortishSampler_init_scenario_counterexample:
  "is_argsort [3, 1, 4, 1, 5, 9, 2, 6] [1, 3, 6, 0, 2, 4, 7, 5]
   \<and> SortishSampler_init (\<lambda>lens. [1, 3, 6, 0, 2, 4, 7, 5]) [3, 1, 4, 1, 5, 9, 2, 6] 4 1 0 =
       Inr \<lparr>data = [[1, 3, 6, 0], [2, 4, 7, 5]], num_replicas = 1, num_samples = 8,
            bucket_size = 4, rank = 0, epoch = 0, total_size = 8\<rparr>
   \<and> [[1, 3, 6, 0], [2, 4, 7, 5]] \<noteq> [[0, 1, 2, 3], [4, 5, 6, 7 :: nat]]
   \<and> map (map (\<lambda>i. [3, 1, 4, 1, 5, 9, 2, 6] ! i)) [[1, 3, 6, 0], [2, 4, 7, 5]]
       \<noteq> [[3, 1, 4, 1], [5, 9, 2, 6 :: int]]
   \<and> is_argsort [3, 1, 4, 1, 5, 9, 2, 6] [3, 1, 6, 0, 2, 4, 7, 5]
   \<and> SortishSampler_init (\<lambda>lens. [3, 1, 6, 0, 2, 4, 7, 5]) [3, 1, 4, 1, 5, 9, 2, 6] 4 1 0 =
       Inr \<lparr>data = [[3, 1, 6, 0], [2, 4, 7, 5]], num_replicas = 1, num_samples = 8,
            bucket_size = 4, rank = 0, epoch = 0, total_size = 8\<rparr>
   \<and> [[3, 1, 6, 0], [2, 4, 7, 5]] \<noteq> [[0, 1, 2, 3], [4, 5, 6, 7 :: nat]]
   \<and> map (map (\<lambda>i. [3, 1, 4, 1, 5, 9, 2, 6] ! i)) [[3, 1, 6, 0], [2, 4, 7, 5]]
       \<noteq> [[3, 1, 4, 1], [5, 9, 2, 6 :: int]]"
proof -
  have c: "ceil_div 8 1 = 8" by (simp add: ceil_div_def)
  have i1: "SortishSampler_init (\<lambda>lens. [1, 3, 6, 0, 2, 4, 7, 5]) [3, 1, 4, 1, 5, 9, 2, 6] 4 1 0 =
       Inr \<lparr>data = [[1, 3, 6, 0], [2, 4, 7, 5]], num_replicas = 1, num_samples = 8,
            bucket_size = 4, rank = 0, epoch = 0, total_size = 8\<rparr>"
    using init_scenario[of "\<lambda>lens. [1, 3, 6, 0, 2, 4, 7, 5]" _ 1 3 6 0 2 4 7 5 1 0] c by simp
  have i2: "SortishSampler_init (\<lambda>lens. [3, 1, 6, 0, 2, 4, 7, 5]) [3, 1, 4, 1, 5, 9, 2, 6] 4 1 0 =
       Inr \<lparr>data = [[3, 1, 6, 0], [2, 4, 7, 5]], num_replicas = 1, num_samples = 8,
            bucket_size = 4, rank = 0, epoch = 0, total_size = 8\<rparr>"
    using init_scenario[of "\<lambda>lens. [3, 1, 6, 0, 2, 4, 7, 5]" _ 3 1 6 0 2 4 7 5 1 0] c by simp
  show ?thesis using is_argsort_scenario unfolding i1 i2 by simp
qed

lemma slice_step_positions:
  assumes "0 < r" "rnk < r"
  shows "filter (\<lambda>j. (j - rnk) mod r = 0) [rnk..<ns * r] = map (\<lambda>k. rnk + k * r) [0..<ns]"
proof (rule sorted_distinct_set_unique)
  show "sorted (filter (\<lambda>j. (j - rnk) mod r = 0) [rnk..<ns * r])"
    by (rule sorted_wrt_filter) simp
  show "distinct (filter (\<lambda>j. (j - rnk) mod r = 0) [rnk..<ns * r])" by simp
  show "sorted (map (\<lambda>k. rnk + k * r) [0..<ns])"
    by (auto simp: sorted_iff_nth_mono)
  show "distinct (map (\<lambda>k. rnk + k * r) [0..<ns])"
    using assms(1) by (auto simp: distinct_map inj_on_def)
  show "set (filter (\<lambda>j. (j - rnk) mod r = 0) [rnk..<ns * r]) = set (map (\<lambda>k. rnk + k * r) [0..<ns])"
  proof (intro set_eqI iffI)
    fix j assume "j \<in> set (filter (\<lambda>j. (j - rnk) mod r = 0) [rnk..<ns * r])"
    then have j: "rnk \<le> j" "j < ns * r" "(j - rnk) mod r = 0" by auto
    define k where "k = (j - rnk) div r"
    have jk: "j = rnk + k * r" using j(1,3) by (auto simp: k_def)
    have "k * r < ns * r" using j(2) jk by linarith
    then have "k < ns" using assms(1) by simp
    then show "j \<in> set (map (\<lambda>k. rnk + k * r) [0..<ns])" using jk by auto
  next
    fix j assume "j \<in> set (map (\<lambda>k. rnk + k * r) [0..<ns])"
    then obtain k where k: "k < ns" "j = rnk + k * r" by auto
    have "rnk + k * r < r + k * r" using assms(2) by simp
    also have "\<dots> = Suc k * r" by simp
    also have "\<dots> \<le> ns * r" using k(1) by (intro mult_le_mono1) simp
    finally have "j < ns * r" using k(2) by simp
    then show "j \<in> set (filter (\<lambda>j. (j - rnk) mod r = 0) [rnk..<ns * r])"
      using k(2) by simp
  qed
qed

lemma slice_step_length:
  assumes "0 < r" "rnk < r" "length xs = ns * r"
  shows "length (slice_step xs rnk (ns * r) r) = ns"
  using slice_step_positions[OF assms(1,2), of ns] assms(3)
  by (simp add: slice_step_def)

lemma concat_buckets_take:
  "concat (map (\<lambda>i. take b (drop (i * b) xs)) [0..<m]) = take (m * b) xs"
proof (induction m)
  case 0
  then show ?case by simp
next
  case (Suc m)
  have "take (Suc m * b) xs = take (m * b + b) xs" by (simp add: add.commute)
  also have "\<dots> = take (m * b) xs @ take b (drop (m * b) xs)" by (rule take_add)
  finally show ?case using Suc by simp
qed

lemma ceil_div_covers:
  assumes "0 < d"
  shows "n \<le> ceil_div n d * d"
proof -
  have "n + d - 1 < d + (n + d - 1) div d * d" using assms by (rule dividend_less_div_times)
  then show ?thesis by (simp add: ceil_div_def)
qed

lemma concat_buckets:
  assumes "0 < b"
  shows "concat (map (\<lambda>i. take b (drop (i * b) xs)) [0..<ceil_div (length xs) b]) = xs"
  using ceil_div_covers[OF assms, of "length xs"] by (simp add: concat_buckets_take)

lemma length_concat_mset:
  assumes "mset xss = mset yss"
  shows "length (concat xss) = length (concat yss)"
proof -
  have "length (concat xss) = sum_mset (image_mset length (mset xss))"
    by (simp add: length_concat sum_mset_sum_list[symmetric] del: sum_mset_sum_list)
  also have "\<dots> = sum_mset (image_mset length (mset yss))" using assms by simp
  also have "\<dots> = length (concat yss)"
    by (simp add: length_concat sum_mset_sum_list[symmetric] del: sum_mset_sum_list)
  finally show ?thesis .
qed

text \<open>
  Where the one slice is long enough, that is for \<open>total_size \<le> 2 * n\<close>, an iteration
  does what claim C6 says: with an admissible \<^verbatim>\<open>np.argsort\<close> and shuffles that are
  permutations it pads the flattened
  list to \<open>total_size\<close> with its own first entries and hands out exactly \<open>num_samples\<close>
  \<open>= ceil(n / num_replicas)\<close> indices, the entries at positions \<open>rank\<close>,
  \<open>rank + num_replicas\<close>, \<dots>; \<^verbatim>\<open>__len__\<close> is \<open>num_samples\<close>.
\<close>

lemma SortishSampler_iter_long_enough:
  assumes arg: "is_argsort sequence_lengths (np_argsort sequence_lengths)"
    and init: "SortishSampler_init np_argsort sequence_lengths bucket_sz num_repl rnk = Inr s"
    and sb: "\<forall>e k b. mset (shuffle_bucket e k b) = mset b"
    and sd: "\<forall>e bs. mset (shuffle_data e bs) = mset bs"
    and rnk: "rnk < num_repl"
    and long: "total_size s \<le> 2 * length sequence_lengths"
  shows "\<exists>indices s'.
           length indices = length sequence_lengths
         \<and> SortishSampler_iter shuffle_bucket shuffle_data s =
             Inr (slice_step (indices @ take (total_size s - length indices) indices)
                    rnk (total_size s) num_repl, s')
         \<and> length (slice_step (indices @ take (total_size s - length indices) indices)
                    rnk (total_size s) num_repl) = num_samples s
         \<and> num_samples s = ceil_div (length sequence_lengths) num_repl
         \<and> total_size s = num_samples s * num_repl
         \<and> SortishSampler_len s = num_samples s"
proof -
  let ?n = "length sequence_lengths"
  have pos: "0 < num_repl" "0 < bucket_sz"
    using init by (auto simp: SortishSampler_init_def split: if_splits)
  have n: "length (np_argsort sequence_lengths) = ?n" by (rule is_argsort_length[OF arg])
  have fields: "data s = map (\<lambda>i. take bucket_sz (drop (i * bucket_sz) (np_argsort sequence_lengths)))
                          [0..<ceil_div ?n bucket_sz]"
    "num_replicas s = num_repl" "num_samples s = ceil_div ?n num_repl" "rank s = rnk"
    "total_size s = ceil_div ?n num_repl * num_repl"
    using init pos by (auto simp: SortishSampler_init_def Let_def n)
  define buckets where "buckets = map (\<lambda>(k, b). shuffle_bucket (epoch s) k b)
                                   (zip [0..<length (data s)] (data s))"
  define data1 where "data1 = shuffle_data (epoch s) buckets"
  define indices where "indices = concat data1"
  have "map length buckets = map length (data s)"
    unfolding buckets_def
    by (rule nth_equalityI) (auto simp: sb[rule_format, THEN mset_eq_length])
  then have "length (concat buckets) = length (concat (data s))"
    by (simp add: length_concat)
  also have "concat (data s) = np_argsort sequence_lengths"
    unfolding fields(1) using concat_buckets[OF pos(2), of "np_argsort sequence_lengths"] n by simp
  finally have lb: "length (concat buckets) = ?n" using n by simp
  have li: "length indices = ?n"
    unfolding indices_def data1_def using length_concat_mset[OF sd[rule_format]] lb by simp
  have ge: "?n \<le> total_size s" unfolding fields(5) by (rule ceil_div_covers[OF pos(1)])
  let ?padded = "indices @ take (total_size s - length indices) indices"
  have lp: "length ?padded = total_size s" using li ge long by simp
  have ls: "length (slice_step ?padded rnk (total_size s) num_repl) = num_samples s"
    using slice_step_length[OF pos(1) rnk, of ?padded "ceil_div ?n num_repl"] lp
    by (simp add: fields)
  have "SortishSampler_iter shuffle_bucket shuffle_data s =
          Inr (slice_step ?padded rnk (total_size s) num_repl, s\<lparr>data := data1\<rparr>)"
    using lp ls li ge
    by (simp add: SortishSampler_iter_def Let_def buckets_def[symmetric] data1_def[symmetric]
        indices_def[symmetric] fields(2,4))
  then show ?thesis
    using li ls fields by (auto simp: SortishSampler_len_def)
qed


text \<open>
  Where it is not, that is for \<open>total_size > 2 * n\<close>, every iteration fails its first
  assertion, whatever the shuffles.
\<close>

lemma SortishSampler_iter_too_short:
  assumes arg: "is_argsort sequence_lengths (np_argsort sequence_lengths)"
    and init: "SortishSampler_init np_argsort sequence_lengths bucket_sz num_repl rnk = Inr s"
    and sb: "\<forall>e k b. mset (shuffle_bucket e k b) = mset b"
    and sd: "\<forall>e bs. mset (shuffle_data e bs) = mset bs"
    and short: "2 * length sequence_lengths < total_size s"
  shows "SortishSampler_iter shuffle_bucket shuffle_data s = Inl AssertionError"
proof -
  let ?n = "length sequence_lengths"
  have pos: "0 < num_repl" "0 < bucket_sz"
    using init by (auto simp: SortishSampler_init_def split: if_splits)
  have n: "length (np_argsort sequence_lengths) = ?n" by (rule is_argsort_length[OF arg])
  have fields: "data s = map (\<lambda>i. take bucket_sz (drop (i * bucket_sz) (np_argsort sequence_lengths)))
                          [0..<ceil_div ?n bucket_sz]"
    using init pos by (auto simp: SortishSampler_init_def Let_def n)
  define buckets where "buckets = map (\<lambda>(k, b). shuffle_bucket (epoch s) k b)
                                   (zip [0..<length (data s)] (data s))"
  define data1 where "data1 = shuffle_data (epoch s) buckets"
  define indices where "indices = concat data1"
  have "map length buckets = map length (data s)"
    unfolding buckets_def
    by (rule nth_equalityI) (auto simp: sb[rule_format, THEN mset_eq_length])
  then have "length (concat buckets) = length (concat (data s))"
    by (simp add: length_concat)
  also have "concat (data s) = np_argsort sequence_lengths"
    unfolding fields using concat_buckets[OF pos(2), of "np_argsort sequence_lengths"] n by simp
  finally have lb: "length (concat buckets) = ?n" using n by simp
  have li: "length indices = ?n"
    unfolding indices_def data1_def using length_concat_mset[OF sd[rule_format]] lb by simp
  have "length (indices @ take (total_size s - length indices) indices) \<noteq> total_size s"
    using li short by simp
  then show ?thesis
    using li short
    by (simp add: SortishSampler_iter_def Let_def buckets_def[symmetric] data1_def[symmetric]
        indices_def[symmetric])
qed

text \<open>
  Claim C6 at the input \<open>sequence_lengths = [5]\<close>, \<open>bucket_size = 1\<close>, \<open>num_replicas = 3\<close>,
  \<open>rank = 0\<close>: \<^verbatim>\<open>np.argsort\<close> can only return \<open>[0]\<close>, \<open>total_size\<close> is 3, the one slice
  \<^verbatim>\<open>indices[:2]\<close> of the one-element list adds one index, and the assertion
  \<^verbatim>\<open>len(indices) == self.total_size\<close> fails. (A list of one index has one permutation, so
  the shuffles are the identity.)
\<close>

theorem SortishSampler_iter_short_padding:
  assumes "is_argsort [5] (np_argsort [5])"
  shows "SortishSampler_init np_argsort [5] 1 3 0 =
     Inr \<lparr>data = [[0]], num_replicas = 3, num_samples = 1, bucket_size = 1, rank = 0,
          epoch = 0, total_size = 3\<rparr>
   \<and> SortishSampler_iter (\<lambda>e k b. b) (\<lambda>e bs. bs)
       \<lparr>data = [[0]], num_replicas = 3, num_samples = 1, bucket_size = 1, rank = 0,
        epoch = 0, total_size = 3\<rparr> = Inl AssertionError"
proof -
  have "ceil_div 1 3 = 1" "ceil_div 1 1 = 1" by (simp_all add: ceil_div_def)
  moreover have "np_argsort [5] = [0]"
  proof -
    have "length (np_argsort [5]) = 1" using is_argsort_length[OF assms] by simp
    then obtain a where a: "np_argsort [5] = [a]"
      by (cases "np_argsort [5]") simp_all
    have "sort (np_argsort [5]) = [0]" using assms by (simp add: is_argsort_def)
    then show ?thesis unfolding a by simp
  qed
  ultimately show ?thesis
    by (simp add: SortishSampler_init_def SortishSampler_iter_def Let_def)
qed

theorem SortishSampler_iter_short_padding_witness:
  "is_argsort [5] [0]
   \<and> SortishSampler_init (\<lambda>lens. [0]) [5] 1 3 0 =
     Inr \<lparr>data = [[0]], num_replicas = 3, num_samples = 1, bucket_size = 1, rank = 0,
          epoch = 0, total_size = 3\<rparr>
   \<and> SortishSampler_iter (\<lambda>e k b. b) (\<lambda>e bs. bs)
       \<lparr>data = [[0]], num_replicas = 3, num_samples = 1, bucket_size = 1, rank = 0,
        epoch = 0, total_size = 3\<rparr> = Inl AssertionError"
proof -
  have a: "is_argsort [5] [0]" by (simp add: is_argsort_def)
  from SortishSampler_iter_short_padding[of "\<lambda>lens. [0]", OF a] a show ?thesis by simp
qed

section \<open>Properties of MLMCollater\<close>

lemma bit_length_numeral:
  "bit_length (numeral k) = Suc (bit_length (numeral k div 2))"
  by (subst bit_length.simps) simp

lemma bit_length_0: "bit_length 0 = 0"
  by (subst bit_length.simps) simp

lemma bit_length_1: "bit_length (Suc 0) = 1"
  by (subst bit_length.simps) (simp add: bit_length_0)

lemmas n_mod_eval =
  n_mod_def round_to_double_def bit_length_numeral bit_length_0 bit_length_1 Let_def

lemma n_mod_10: "n_mod 10 = 1"
  by (simp add: n_mod_eval)

lemma n_mod_2: "n_mod 2 = 0"
  by (simp add: n_mod_eval)

lemma n_mod_Suc_2: "n_mod (Suc (Suc 0)) = 0"
  using n_mod_2 by (simp add: numeral_2_eq_2)

lemma n_mod_Suc_10:
  "n_mod (Suc (Suc (Suc (Suc (Suc (Suc (Suc (Suc (Suc (Suc 0)))))))))) = 1"
  using n_mod_10 by (simp add: eval_nat_numeral)

text \<open>
  \<open>int(L * 0.15)\<close> never exceeds \<open>L\<close>, so \<^verbatim>\<open>random.sample\<close> is never asked for more
  positions than there are, and taking the first positions is one way to keep its
  promise.
\<close>


lemma bit_length_bounds: "0 < p \<Longrightarrow> 2 ^ (bit_length p - 1) \<le> p \<and> p < 2 ^ bit_length p"
proof (induction p rule: bit_length.induct)
  case (1 n)
  show ?case
  proof (cases "n div 2 = 0")
    case True
    then have "n = 1" using "1.prems" by (simp add: div_eq_0_iff) 
    then show ?thesis by (simp add: bit_length_1)
  next
    case False
    then have pos: "0 < n div 2" by simp
    from "1.IH"[OF _ pos] "1.prems"
    have ih: "2 ^ (bit_length (n div 2) - 1) \<le> n div 2" "n div 2 < 2 ^ bit_length (n div 2)"
      by auto
    have bl: "bit_length n = Suc (bit_length (n div 2))"
      using "1.prems" by (subst bit_length.simps) simp
    have blpos: "0 < bit_length (n div 2)"
      using pos by (subst bit_length.simps) simp
    then obtain k where k: "bit_length (n div 2) = Suc k" by (cases "bit_length (n div 2)") auto
    have "2 * 2 ^ k \<le> 2 * (n div 2)" using ih(1) k by simp
    also have "\<dots> \<le> n" by simp
    finally have lo: "2 ^ (bit_length n - 1) \<le> n" by (simp add: bl k)
    have "n < 2 * (n div 2) + 2" by presburger
    also have "\<dots> \<le> 2 * 2 ^ bit_length (n div 2)" using ih(2) by simp
    finally have hi: "n < 2 ^ bit_length n" by (simp add: bl)
    show ?thesis using lo hi by simp
  qed
qed

lemma round_to_double_le: "round_to_double p \<le> 2 * p"
proof (cases "bit_length p - 53 = 0")
  case True
  then show ?thesis by (simp add: round_to_double_def Let_def)
next
  case False
  define s where "s = bit_length p - 53"
  have spos: "0 < s" using False by (simp add: s_def)
  then have ppos: "0 < p" by (cases "p = 0") (auto simp: s_def bit_length_0)
  have "s \<le> bit_length p - 1" by (simp add: s_def)
  then have "(2::nat) ^ s \<le> 2 ^ (bit_length p - 1)" by (simp add: power_increasing)
  also have "\<dots> \<le> p" using bit_length_bounds[OF ppos] by simp
  finally have le: "2 ^ s \<le> p" .
  have q: "p div 2 ^ s * 2 ^ s \<le> p" by simp
  have "(p div 2 ^ s + 1) * 2 ^ s = p div 2 ^ s * 2 ^ s + 2 ^ s" by (simp add: algebra_simps)
  also have "\<dots> \<le> p + p" using q le by (rule add_mono)
  finally have up: "(p div 2 ^ s + 1) * 2 ^ s \<le> 2 * p" by simp
  have dn: "p div 2 ^ s * 2 ^ s \<le> 2 * p" using q by linarith
  show ?thesis
    using up dn spos unfolding round_to_double_def Let_def s_def[symmetric]
    by (auto simp del: mult_Suc)
qed

lemma n_mod_le: "n_mod L \<le> L"
proof -
  have "round_to_double (round_to_double L * 5404319552844595)
          \<le> 2 * (round_to_double L * 5404319552844595)"
    by (rule round_to_double_le)
  also have "\<dots> \<le> 2 * ((2 * L) * 5404319552844595)"
    using round_to_double_le[of L] by simp
  also have "\<dots> \<le> L * 2 ^ 55" by simp
  finally have "round_to_double (round_to_double L * 5404319552844595) div 2 ^ 55
                  \<le> L * 2 ^ 55 div 2 ^ 55"
    by (rule div_le_mono)
  then show ?thesis by (simp add: n_mod_def)
qed

lemma sample_ok_take:
  assumes "0 < L"
  shows "sample_ok \<lparr>random_sample = (\<lambda>i pop k. take k pop), choice_int = (\<lambda>i n. 0),
           uniform = un, choice_list = cl\<rparr> i L"
  using assms n_mod_le[of L] by (auto simp: sample_ok_def dest: in_set_takeD)


lemma round_to_double_small: "p < 2 ^ 53 \<Longrightarrow> round_to_double p = p"
proof (cases "p = 0")
  case True
  then show ?thesis by (simp add: round_to_double_def bit_length_0)
next
  case False
  assume "p < 2 ^ 53"
  then have "(2::nat) ^ (bit_length p - 1) < 2 ^ 53" using bit_length_bounds[of p] False by simp
  then have "bit_length p - 1 < 53" by (simp only: power_strict_increasing_iff) 
  then show ?thesis by (simp add: round_to_double_def Let_def)
qed

lemma round_to_double_near:
  "2 * round_to_double p \<le> 2 * p + 2 ^ (bit_length p - 53)
   \<and> 2 * p \<le> 2 * round_to_double p + 2 ^ (bit_length p - 53)"
proof (cases "bit_length p - 53 = 0")
  case True
  then show ?thesis by (simp add: round_to_double_def Let_def)
next
  case False
  define s where "s = bit_length p - 53"
  define U where "U = (2::nat) ^ s"
  define a where "a = p div U * U"
  define r where "r = p mod U"
  have p: "p = a + r" by (simp add: a_def r_def)
  have rU: "r < U" by (simp add: r_def U_def)
  have up: "(p div U + 1) * U = a + U" by (simp add: a_def algebra_simps)
  have rd: "round_to_double p =
      (if U < 2 * r \<or> (2 * r = U \<and> odd (p div U)) then a + U else a)"
    using False unfolding round_to_double_def Let_def s_def[symmetric] U_def[symmetric]
      r_def[symmetric] up a_def[symmetric] by (simp del: mult_Suc)
  show ?thesis
    unfolding s_def[symmetric] U_def[symmetric] rd using p rU by auto
qed

lemma round_to_double_ulp:
  assumes "53 < bit_length p"
  shows "2 ^ (bit_length p - 53) * 2 ^ 52 \<le> p"
proof -
  have ppos: "0 < p" using assms by (cases "p = 0") (auto simp: bit_length_0)
  have "(2::nat) ^ (bit_length p - 53) * 2 ^ 52 = 2 ^ (bit_length p - 53 + 52)"
    by (simp only: power_add)
  also have "bit_length p - 53 + 52 = bit_length p - 1" using assms by simp
  finally show ?thesis using bit_length_bounds[OF ppos] by simp
qed


lemma round_to_double_up:
  assumes s: "0 < bit_length p - 53" and M: "M = c * 2 ^ (bit_length p - 53)"
    and pM: "p \<le> M" and close: "2 * (M - p) < 2 ^ (bit_length p - 53)"
  shows "round_to_double p = M"
proof -
  define U where "U = (2::nat) ^ (bit_length p - 53)"
  have Upos: "0 < U" by (simp add: U_def)
  have MU: "M = c * U" using M by (simp add: U_def)
  have rd: "round_to_double p =
      (if U < 2 * (p mod U) \<or> (2 * (p mod U) = U \<and> odd (p div U)) then (p div U + 1) * U
       else p div U * U)"
    using s unfolding round_to_double_def Let_def U_def by simp
  show ?thesis
  proof (cases "p = M")
    case True
    have "p div U = c" "p mod U = 0" using Upos by (simp_all add: True MU)
    then show ?thesis unfolding rd using Upos True MU by simp
  next
    case False
    define e where "e = M - p"
    have e: "0 < e" "2 * e < U" "p + e = c * U"
      using False pM close MU by (simp_all add: e_def U_def)
    then obtain c' where c': "c = Suc c'" by (cases c) auto
    have cpos: "0 < c" by (simp add: c')
    have cU: "c * U = (c - 1) * U + U" by (simp add: c')
    have pe: "p = (c - 1) * U + (U - e)" using cU e by linarith
    have lt: "U - e < U" using e by simp
    have q: "p div U = c - 1" using Upos by (subst pe) (simp add: lt)
    have r: "p mod U = U - e" using Upos by (subst pe) (simp add: lt)
    have "U < 2 * (U - e)" using e by linarith
    then show ?thesis unfolding rd q r using cpos MU cU by simp
  qed
qed


lemma n_mod_floor:
  assumes "L < 2 ^ 50"
  shows "n_mod L = 3 * L div 20"
proof (cases "L = 0")
  case True
  have "round_to_double 0 = 0" by (rule round_to_double_small) simp
  then show ?thesis using True by (simp add: n_mod_def)
next
  case False
  define T :: nat where "T = 36028797018963968"
  define p where "p = L * 5404319552844595"
  define k where "k = 3 * L div 20"
  define f where "f = 3 * L mod 20"
  define s where "s = bit_length p - 53"
  define U :: nat where "U = 2 ^ s"
  define R where "R = round_to_double p"
  have L50: "L < 1125899906842624" using assms by simp
  have rdL: "round_to_double L = L" by (rule round_to_double_small) (use L50 in simp)
  have nm: "n_mod L = R div T" by (simp add: n_mod_def rdL p_def T_def R_def)
  have kf: "3 * L = 20 * k + f" "f < 20" by (simp_all add: k_def f_def)
  have eq: "20 * p + 4 * L = 3 * L * T" by (simp add: p_def T_def)
  have pT: "p < L * 9007199254740992" using False by (simp add: p_def)
  have near: "2 * R \<le> 2 * p + U" "2 * p \<le> 2 * R + U"
    using round_to_double_near[of p] by (simp_all add: R_def U_def s_def)
  have U2L: "U \<le> 2 * L"
  proof (cases "53 < bit_length p")
    case True
    have "U * 4503599627370496 \<le> p"
      using round_to_double_ulp[OF True] by (simp add: U_def s_def)
    then show ?thesis using pT by linarith
  next
    case False
    then have "U = 1" by (simp add: U_def s_def)
    then show ?thesis using \<open>L \<noteq> 0\<close> by simp
  qed
  have upper: "R < Suc k * T"
  proof -
    have "40 * R + 8 * L \<le> 40 * (k * T) + 2 * (f * T) + 20 * U"
      using near(1) eq kf(1) by (simp add: T_def) 
    then show ?thesis using kf(2) U2L L50 by (simp add: T_def)
  qed
  have lower: "k * T \<le> R"
  proof (cases "f = 0")
    case False
    have "40 * (k * T) + 2 * (f * T) \<le> 40 * R + 20 * U + 8 * L"
      using near(2) eq kf(1) by (simp add: T_def)
    then show ?thesis using False U2L L50 by (simp add: T_def)
  next
    case True
    define e where "e = k * T - p"
    have kTp: "k * T = p + e" "L = 5 * e"
      using eq kf(1) True by (simp_all add: e_def T_def)
    have epos: "0 < e" using kTp(2) \<open>L \<noteq> 0\<close> by simp
    have p3: "p + e = 3 * e * 9007199254740992"
      using eq kTp by (simp add: T_def)
    have "(2::nat) ^ 54 \<le> p" using p3 epos by simp
    also have "p < 2 ^ bit_length p"
      using bit_length_bounds[of p] p3 epos by (cases "p = 0") auto
    finally have bl: "54 < bit_length p" by (simp only: power_strict_increasing_iff)
    then have spos: "0 < bit_length p - 53" by simp
    have "p < 2 ^ bit_length p"
      using bit_length_bounds[of p] p3 epos by (cases "p = 0") auto
    also have "bit_length p = s + 53" using bl by (simp add: s_def)
    also have "(2::nat) ^ (s + 53) = U * 9007199254740992" by (simp add: U_def power_add)
    finally have pU: "p < U * 9007199254740992" .
    have "2 * (k * T - p) < U" using pU p3 kTp(1) by linarith
    then have close: "2 * (k * T - p) < 2 ^ (bit_length p - 53)"
      unfolding U_def s_def .
    have "(2::nat) ^ s < 2 ^ 51" using U2L L50 by (simp add: U_def[symmetric])
    then have "s < 51" by (simp only: power_strict_increasing_iff)
    then have "(55::nat) = (55 - s) + s" by simp
    then have "(2::nat) ^ 55 = 2 ^ (55 - s) * 2 ^ s" by (metis power_add)
    then have M: "k * T = (k * 2 ^ (55 - s)) * 2 ^ (bit_length p - 53)"
      by (simp add: T_def s_def[symmetric])
    have "round_to_double p = k * T"
      by (rule round_to_double_up[OF spos M _ close]) (simp add: kTp)
    then show ?thesis by (simp add: R_def)
  qed
  have "R div T = k"
    using lower upper by (intro div_nat_eqI) (simp_all add: mult.commute)
  then show ?thesis by (simp add: nm k_def)
qed

lemma mlm_modify_length:
  "mlm_modify C R i seq j mod_idx seq_mod = Inr r \<Longrightarrow> length r = length seq_mod"
proof (induction mod_idx arbitrary: j seq_mod)
  case Nil
  then show ?case by simp
next
  case (Cons idx rest)
  then show ?case
    by (auto simp: Let_def split: if_splits)
qed

lemma mlm_loop_Inr:
  assumes "mlm_loop C R i rest (F @ rest) src msk = Inr (src', tgt', msk')"
    and "\<forall>s\<in>set F. s \<noteq> []"
  shows "tgt' = F @ filter (\<lambda>s. s \<noteq> []) rest
       \<and> length src' = length src + length (filter (\<lambda>s. s \<noteq> []) rest)
       \<and> length msk' = length msk + length (filter (\<lambda>s. s \<noteq> []) rest)"
  using assms
proof (induction rest arbitrary: i F src msk)
  case Nil
  then show ?case by simp
next
  case (Cons seq rest)
  show ?case
  proof (cases "seq = []")
    case True
    have notin: "[] \<notin> set F" using Cons.prems(2) by auto
    have rm: "remove1 seq (F @ seq # rest) = F @ rest"
      using True notin by (simp add: remove1_append)
    have "mlm_loop C R (Suc i) rest (F @ rest) src msk = Inr (src', tgt', msk')"
      using Cons.prems(1) True rm by simp
    from Cons.IH[OF this Cons.prems(2)] show ?thesis using True by simp
  next
    case False
    define mod_idx0 where "mod_idx0 = random_sample R i [0..<length seq] (n_mod (length seq))"
    define mod_idx where
      "mod_idx = (if length mod_idx0 = 0 then [choice_int R i (length seq)] else mod_idx0)"
    have step: "mlm_loop C R i (seq # rest) (F @ seq # rest) src msk =
        (case mlm_modify C R i seq 0 mod_idx seq of
           Inl e \<Rightarrow> Inl e
         | Inr seq_mod \<Rightarrow>
             mlm_loop C R (Suc i) rest (F @ seq # rest) (src @ [seq_mod])
               (msk @ [mask_row (length seq_mod) mod_idx]))"
      unfolding mod_idx_def mod_idx0_def using False by (simp add: Let_def)
    from Cons.prems(1) obtain seq_mod where
      m: "mlm_modify C R i seq 0 mod_idx seq = Inr seq_mod"
      and l: "mlm_loop C R (Suc i) rest ((F @ [seq]) @ rest) (src @ [seq_mod])
                (msk @ [mask_row (length seq_mod) mod_idx]) = Inr (src', tgt', msk')"
      unfolding step by (cases "mlm_modify C R i seq 0 mod_idx seq") auto
    have F': "\<forall>s\<in>set (F @ [seq]). s \<noteq> []" using Cons.prems(2) False by simp
    from Cons.IH[OF l F'] show ?thesis using False by simp
  qed
qed

lemma pad_tokenized_length: "pad_tokenized ts v = Inr P \<Longrightarrow> length P = length ts"
  using pad_tokenized_Inr[of ts v P] by simp

text \<open>
  Claim C5, as amended. Whenever \<^verbatim>\<open>MLMCollater._prep\<close> returns, the tensors \<open>src\<close>, \<open>tgt\<close>
  and \<open>mask\<close> have the same number of rows, the number of non-empty sequences of the
  batch: a zero-length sequence is removed from the target list and also contributes no
  row to \<open>src\<close> and to the mask.
\<close>

theorem MLMCollater_batch_sizes:
  assumes "MLMCollater_prep C R alphabet sequences = Inr (src, tgt, msk)"
  shows "length src = length (filter (\<lambda>s. s \<noteq> []) sequences)
       \<and> length tgt = length (filter (\<lambda>s. s \<noteq> []) sequences)
       \<and> length msk = length (filter (\<lambda>s. s \<noteq> []) sequences)"
proof -
  from assms obtain src0 tgt0 msk0 src1 tgt1 pad_idx where
    loop: "mlm_loop C R 0 sequences sequences [] [] = Inr (src0, tgt0, msk0)"
    and s1: "tokenize_all alphabet src0 = Inr src1"
    and t1: "tokenize_all alphabet tgt0 = Inr tgt1"
    and S: "pad_tokenized src1 pad_idx = Inr src"
    and T: "pad_tokenized tgt1 pad_idx = Inr tgt"
    and K: "pad_tokenized msk0 0 = Inr msk"
    by (auto simp: MLMCollater_prep_def split: sum.splits prod.splits)
  from mlm_loop_Inr[of C R 0 sequences "[]" "[]" "[]" src0 tgt0 msk0] loop
  have "tgt0 = filter (\<lambda>s. s \<noteq> []) sequences"
    and "length src0 = length (filter (\<lambda>s. s \<noteq> []) sequences)"
    and "length msk0 = length (filter (\<lambda>s. s \<noteq> []) sequences)"
    by simp_all
  then show ?thesis
    using tokenize_all_length[OF s1] tokenize_all_length[OF t1]
      pad_tokenized_length[OF S] pad_tokenized_length[OF T] pad_tokenized_length[OF K]
    by simp
qed

lemma MLM_example_1:
  "MLMCollater_prep
     \<lparr>PAD = CHR ''-'', START = CHR ''@'', STOP = CHR ''*'', MASK = CHR ''#'', ALL_AAS = ''ACDE''\<rparr>
     \<lparr>random_sample = (\<lambda>i pop k. take k pop), choice_int = (\<lambda>i n. 0),
      uniform = (\<lambda>i j. 1 / 2), choice_list = (\<lambda>i j xs. hd xs)\<rparr>
     ''ACDE-@*#'' ['''', ''AC'']
   = Inr ([[7, 1]], [[0, 1]], [[1, 0]])"
  by (simp add: MLMCollater_prep_def n_mod_Suc_2 mask_row_def pad_tokenized_def)

theorem MLMCollater_batch_sizes_witness:
  "MLMCollater_prep
     \<lparr>PAD = CHR ''-'', START = CHR ''@'', STOP = CHR ''*'', MASK = CHR ''#'', ALL_AAS = ''ACDE''\<rparr>
     \<lparr>random_sample = (\<lambda>i pop k. take k pop), choice_int = (\<lambda>i n. 0),
      uniform = (\<lambda>i j. 1 / 2), choice_list = (\<lambda>i j xs. hd xs)\<rparr>
     ''ACDE-@*#'' ['''', ''AC'']
   = Inr ([[7, 1]], [[0, 1]], [[1, 0]])
   \<and> length [[7, 1 :: nat]] = length (filter (\<lambda>s. s \<noteq> []) ['''', ''AC''])
   \<and> length [[0, 1 :: nat]] = length (filter (\<lambda>s. s \<noteq> []) ['''', ''AC''])
   \<and> length [[1, 0 :: nat]] = length (filter (\<lambda>s. s \<noteq> []) ['''', ''AC''])"
  using MLMCollater_batch_sizes[OF MLM_example_1] MLM_example_1 by simp

text \<open>
  A batch of one zero-length and one non-empty sequence: \<open>src\<close> and \<open>tgt\<close> both have one
  row.
\<close>

theorem MLMCollater_desync_counterexample:
  "MLMCollater_prep
     \<lparr>PAD = CHR ''-'', START = CHR ''@'', STOP = CHR ''*'', MASK = CHR ''#'', ALL_AAS = ''ACDE''\<rparr>
     \<lparr>random_sample = (\<lambda>i pop k. take k pop), choice_int = (\<lambda>i n. 0),
      uniform = (\<lambda>i j. 1 / 2), choice_list = (\<lambda>i j xs. hd xs)\<rparr>
     ''ACDE-@*#'' ['''', ''AC'']
   = Inr ([[7, 1]], [[0, 1]], [[1, 0]])
   \<and> length [[7, 1 :: nat]] = length [[0, 1 :: nat]]"
  by (simp add: MLMCollater_prep_def n_mod_Suc_2 mask_row_def pad_tokenized_def)


lemma fold_update_const:
  "fold (\<lambda>idx m. m[idx := v]) xs m =
     map (\<lambda>j. if j \<in> set xs then v else m ! j) [0..<length m]"
proof (induction xs arbitrary: m)
  case Nil
  then show ?case by (simp add: map_nth)
next
  case (Cons x xs)
  have "fold (\<lambda>idx m. m[idx := v]) (x # xs) m = fold (\<lambda>idx m. m[idx := v]) xs (m[x := v])"
    by simp
  also have "\<dots> = map (\<lambda>j. if j \<in> set xs then v else m[x := v] ! j) [0..<length m]"
    by (subst Cons.IH) simp
  also have "\<dots> = map (\<lambda>j. if j \<in> set (x # xs) then v else m ! j) [0..<length m]"
    by (rule map_cong) (auto simp: nth_list_update)
  finally show ?case .
qed

lemma count_ones_mask_row:
  assumes "distinct xs" and "\<forall>j\<in>set xs. j < L"
  shows "count_ones (mask_row L xs) = length xs"
proof -
  have "mask_row L xs = map (\<lambda>j. if j \<in> set xs then 1 else replicate L 0 ! j) [0..<L]"
    unfolding mask_row_def fold_update_const by simp
  also have "\<dots> = map (\<lambda>j. if j \<in> set xs then 1 else 0) [0..<L]"
    by (rule map_cong) auto
  finally have "count_ones (mask_row L xs) = length (filter (\<lambda>j. j \<in> set xs) [0..<L])"
    by (simp add: count_ones_def filter_map comp_def)
  also have "\<dots> = card ({j. j \<in> set xs} \<inter> set [0..<L])"
    by (rule distinct_length_filter) simp
  also have "{j. j \<in> set xs} \<inter> set [0..<L] = set xs" using assms(2) by auto
  also have "card (set xs) = length xs" using assms(1) by (rule distinct_card)
  finally show ?thesis .
qed

lemma count_ones_pad: "count_ones (t @ replicate k 0) = count_ones t"
  by (simp add: count_ones_def)

lemma mlm_loop_counts:
  assumes "mlm_loop C R i rest tgt src msk = Inr (src', tgt', msk')"
    and "\<forall>k<length rest. rest ! k \<noteq> [] \<longrightarrow> sample_ok R (i + k) (length (rest ! k))"
  shows "map count_ones msk' =
           map count_ones msk @
           map (\<lambda>s. max 1 (n_mod (length s))) (filter (\<lambda>s. s \<noteq> []) rest)"
  using assms
proof (induction rest arbitrary: i tgt src msk)
  case Nil
  then show ?case by simp
next
  case (Cons seq rest)
  have rest_ok: "\<forall>k<length rest. rest ! k \<noteq> [] \<longrightarrow> sample_ok R (Suc i + k) (length (rest ! k))"
  proof (intro allI impI)
    fix k assume "k < length rest" "rest ! k \<noteq> []"
    then show "sample_ok R (Suc i + k) (length (rest ! k))"
      using Cons.prems(2)[rule_format, of "Suc k"] by simp
  qed
  show ?case
  proof (cases "seq = []")
    case True
    then have "mlm_loop C R (Suc i) rest (remove1 seq tgt) src msk = Inr (src', tgt', msk')"
      using Cons.prems(1) by (simp split: if_splits)
    from Cons.IH[OF this rest_ok] show ?thesis using True by simp
  next
    case False
    define L where "L = length seq"
    define mod_idx0 where "mod_idx0 = random_sample R i [0..<length seq] (n_mod (length seq))"
    define mod_idx where
      "mod_idx = (if length mod_idx0 = 0 then [choice_int R i (length seq)] else mod_idx0)"
    have ok: "sample_ok R i L"
      using Cons.prems(2)[rule_format, of 0] False by (simp add: L_def)
    have m0: "length mod_idx0 = n_mod L" "distinct mod_idx0" "\<forall>j\<in>set mod_idx0. j < L"
      and ch: "choice_int R i L < L"
      using ok by (simp_all add: sample_ok_def mod_idx0_def L_def)
    have mi: "distinct mod_idx" "\<forall>j\<in>set mod_idx. j < L" "length mod_idx = max 1 (n_mod L)"
      using m0 ch by (auto simp: mod_idx_def L_def)
    have step: "mlm_loop C R i (seq # rest) tgt src msk =
        (case mlm_modify C R i seq 0 mod_idx seq of
           Inl e \<Rightarrow> Inl e
         | Inr seq_mod \<Rightarrow>
             mlm_loop C R (Suc i) rest tgt (src @ [seq_mod])
               (msk @ [mask_row (length seq_mod) mod_idx]))"
      unfolding mod_idx_def mod_idx0_def using False by (simp add: Let_def)
    from Cons.prems(1) obtain seq_mod where
      m: "mlm_modify C R i seq 0 mod_idx seq = Inr seq_mod"
      and l: "mlm_loop C R (Suc i) rest tgt (src @ [seq_mod])
                (msk @ [mask_row (length seq_mod) mod_idx]) = Inr (src', tgt', msk')"
      unfolding step by (cases "mlm_modify C R i seq 0 mod_idx seq") auto
    have "length seq_mod = L" using mlm_modify_length[OF m] by (simp add: L_def)
    then have "count_ones (mask_row (length seq_mod) mod_idx) = max 1 (n_mod L)"
      using count_ones_mask_row[OF mi(1,2)] mi(3) by simp
    then show ?thesis
      using Cons.IH[OF l rest_ok] False by (simp add: L_def)
  qed
qed

text \<open>
  Claim C3, as amended. When the random draws keep the promise of \<^verbatim>\<open>random.sample\<close> and
  \<^verbatim>\<open>np.random.choice\<close>, the mask row of each non-empty sequence of length \<open>L\<close> has
  \<open>int(L * 0.15)\<close> positions marked 1 (the product in double precision, truncated, not
  rounded), and one position when that number is 0. For lengths below \<open>2 ^ 50\<close> that is
  \<open>max 1 (floor (3 * L / 20))\<close>. For a sequence of length 10 it is one position.
\<close>

theorem MLMCollater_mask_count:
  assumes "MLMCollater_prep C R alphabet sequences = Inr (src, tgt, msk)"
    and "\<forall>i<length sequences. sequences ! i \<noteq> [] \<longrightarrow> sample_ok R i (length (sequences ! i))"
  shows "map count_ones msk =
           map (\<lambda>s. max 1 (n_mod (length s))) (filter (\<lambda>s. s \<noteq> []) sequences)
       \<and> ((\<forall>s\<in>set sequences. length s < 2 ^ 50) \<longrightarrow>
            map count_ones msk =
              map (\<lambda>s. max 1 (3 * length s div 20)) (filter (\<lambda>s. s \<noteq> []) sequences))
       \<and> max 1 (n_mod 10) = 1"
proof -
  from assms(1) obtain src0 tgt0 msk0 where
    loop: "mlm_loop C R 0 sequences sequences [] [] = Inr (src0, tgt0, msk0)"
    and K: "pad_tokenized msk0 0 = Inr msk"
    by (auto simp: MLMCollater_prep_def split: sum.splits prod.splits)
  have "map count_ones msk0 =
          map (\<lambda>s. max 1 (n_mod (length s))) (filter (\<lambda>s. s \<noteq> []) sequences)"
    using mlm_loop_counts[OF loop] assms(2) by simp
  moreover have "map count_ones msk = map count_ones msk0"
    using pad_tokenized_Inr[OF K] by (simp add: comp_def count_ones_pad)
  ultimately have counts: "map count_ones msk =
      map (\<lambda>s. max 1 (n_mod (length s))) (filter (\<lambda>s. s \<noteq> []) sequences)"
    by simp
  have "map (\<lambda>s. max 1 (n_mod (length s))) (filter (\<lambda>s. s \<noteq> []) sequences) =
        map (\<lambda>s. max 1 (3 * length s div 20)) (filter (\<lambda>s. s \<noteq> []) sequences)"
    if "\<forall>s\<in>set sequences. length s < 2 ^ 50"
    by (rule map_cong) (use that in \<open>simp_all add: n_mod_floor\<close>)
  then show ?thesis using counts by (simp add: n_mod_10)
qed

lemma MLM_example_2:
  "MLMCollater_prep
     \<lparr>PAD = CHR ''-'', START = CHR ''@'', STOP = CHR ''*'', MASK = CHR ''#'', ALL_AAS = ''ACDE''\<rparr>
     \<lparr>random_sample = (\<lambda>i pop k. take k pop), choice_int = (\<lambda>i n. 0),
      uniform = (\<lambda>i j. 1 / 2), choice_list = (\<lambda>i j xs. hd xs)\<rparr>
     ''ACDE-@*#'' [''ACDEACDEAC'']
   = Inr ([[7, 1, 2, 3, 0, 1, 2, 3, 0, 1]], [[0, 1, 2, 3, 0, 1, 2, 3, 0, 1]],
          [[1, 0, 0, 0, 0, 0, 0, 0, 0, 0]])"
  by (simp add: MLMCollater_prep_def n_mod_Suc_10 mask_row_def pad_tokenized_def)

theorem MLMCollater_mask_count_witness:
  "MLMCollater_prep
     \<lparr>PAD = CHR ''-'', START = CHR ''@'', STOP = CHR ''*'', MASK = CHR ''#'', ALL_AAS = ''ACDE''\<rparr>
     \<lparr>random_sample = (\<lambda>i pop k. take k pop), choice_int = (\<lambda>i n. 0),
      uniform = (\<lambda>i j. 1 / 2), choice_list = (\<lambda>i j xs. hd xs)\<rparr>
     ''ACDE-@*#'' [''ACDEACDEAC'']
   = Inr ([[7, 1, 2, 3, 0, 1, 2, 3, 0, 1]], [[0, 1, 2, 3, 0, 1, 2, 3, 0, 1]],
          [[1, 0, 0, 0, 0, 0, 0, 0, 0, 0]])
   \<and> sample_ok \<lparr>random_sample = (\<lambda>i pop k. take k pop), choice_int = (\<lambda>i n. 0),
      uniform = (\<lambda>i j. 1 / 2), choice_list = (\<lambda>i j xs. hd xs)\<rparr> 0 10
   \<and> map count_ones [[1, 0, 0, 0, 0, 0, 0, 0, 0, 0]] = [max 1 (n_mod 10)]
   \<and> length ''ACDEACDEAC'' < 2 ^ 50
   \<and> map count_ones [[1, 0, 0, 0, 0, 0, 0, 0, 0, 0]] = [max 1 (3 * 10 div 20)]"
proof -
  let ?R = "\<lparr>random_sample = (\<lambda>i pop k. take k pop), choice_int = (\<lambda>i n. 0),
      uniform = (\<lambda>i j. 1 / 2), choice_list = (\<lambda>i j xs. hd xs)\<rparr>"
  have ok: "sample_ok ?R 0 10"
    by (simp add: sample_ok_def n_mod_10)
  have hyp: "\<forall>i<length [''ACDEACDEAC'']. [''ACDEACDEAC''] ! i \<noteq> [] \<longrightarrow>
               sample_ok ?R i (length ([''ACDEACDEAC''] ! i))"
    using ok by (simp add: eval_nat_numeral)
  show ?thesis
    using MLMCollater_mask_count[OF MLM_example_2 hyp] MLM_example_2 ok
    by (simp add: n_mod_10 n_mod_Suc_10)
qed

text \<open>
  For a sequence of length 10 the mask row has one position marked, not
  \<open>round(1.5) = 2\<close>.
\<close>

theorem MLMCollater_mask_count_counterexample:
  "MLMCollater_prep
     \<lparr>PAD = CHR ''-'', START = CHR ''@'', STOP = CHR ''*'', MASK = CHR ''#'', ALL_AAS = ''ACDE''\<rparr>
     \<lparr>random_sample = (\<lambda>i pop k. take k pop), choice_int = (\<lambda>i n. 0),
      uniform = (\<lambda>i j. 1 / 2), choice_list = (\<lambda>i j xs. hd xs)\<rparr>
     ''ACDE-@*#'' [''ACDEACDEAC'']
   = Inr ([[7, 1, 2, 3, 0, 1, 2, 3, 0, 1]], [[0, 1, 2, 3, 0, 1, 2, 3, 0, 1]],
          [[1, 0, 0, 0, 0, 0, 0, 0, 0, 0]])
   \<and> sample_ok \<lparr>random_sample = (\<lambda>i pop k. take k pop), choice_int = (\<lambda>i n. 0),
      uniform = (\<lambda>i j. 1 / 2), choice_list = (\<lambda>i j xs. hd xs)\<rparr> 0 10
   \<and> count_ones [1, 0, 0, 0, 0, 0, 0, 0, 0, 0] \<noteq> 2"
  by (simp add: MLMCollater_prep_def n_mod_Suc_10 n_mod_10 mask_row_def pad_tokenized_def
      sample_ok_def count_ones_def)

section \<open>Properties of StructureCollater\<close>

lemma structure_loop_all_dropped:
  assumes "\<forall>k. u k < p_drop"
  shows "structure_loop G p_drop n_connections u i items st = Inr st"
proof (induction items arbitrary: i)
  case Nil
  then show ?case by simp
next
  case (Cons item items)
  obtain ell struct_opt where item: "item = (ell, struct_opt)" by (cases item)
  show ?case using assms Cons.IH by (simp add: item split: option.splits)
qed

lemma structure_loop_untouched:
  assumes "structure_loop G p_drop n_connections u i items (N, E, K, M) = Inr (N', E', K', M')"
    and "j < i \<or> i + length items \<le> j \<or> snd (items ! (j - i)) = None"
  shows "N' ! j = N ! j \<and> E' ! j = E ! j \<and> K' ! j = K ! j \<and> M' ! j = M ! j"
  using assms
proof (induction items arbitrary: i N E K M)
  case Nil
  then show ?case by simp
next
  case (Cons item items)
  obtain ell struct_opt where item: "item = (ell, struct_opt)" by (cases item)
  have later: "j < Suc i \<or> Suc i + length items \<le> j \<or> snd (items ! (j - Suc i)) = None"
    if "j \<noteq> i \<or> struct_opt = None"
  proof (cases "j \<le> i")
    case True
    then show ?thesis by simp
  next
    case False
    then obtain d where d: "j - i = Suc d" by (cases "j - i") auto
    then have "j - Suc i = d" by simp
    then show ?thesis using Cons.prems(2) False d by auto
  qed
  show ?case
  proof (cases struct_opt)
    case None
    then have "structure_loop G p_drop n_connections u (Suc i) items (N, E, K, M)
                 = Inr (N', E', K', M')"
      using Cons.prems(1) item by simp
    from Cons.IH[OF this later] None show ?thesis by simp
  next
    case (Some struct)
    show ?thesis
    proof (cases "u i < p_drop")
      case True
      then have "structure_loop G p_drop n_connections u (Suc i) items (N, E, K, M)
                   = Inr (N', E', K', M')"
        using Cons.prems(1) item Some by simp
      moreover have "j \<noteq> i" using Cons.prems(2) item Some by auto
      ultimately show ?thesis using Cons.IH later by blast
    next
      case False
      have ji: "j \<noteq> i" using Cons.prems(2) item Some by auto
      from Cons.prems(1) item Some False obtain Ni Ei Ki Mi where
        "structure_loop G p_drop n_connections u (Suc i) items
           (N[i := Ni], E[i := Ei], K[i := Ki], M[i := Mi]) = Inr (N', E', K', M')"
        by (auto split: sum.splits)
      from Cons.IH[OF this later] ji show ?thesis by simp
    qed
  qed
qed

text \<open>
  Claim C8. Whenever \<^verbatim>\<open>StructureCollater.__call__\<close> returns: with \<open>p_drop_structure = 1\<close>
  (and every draw of \<^verbatim>\<open>np.random.random()\<close> below 1, as the library promises) the node,
  edge, connection and edge-mask tensors are entirely zero; and for whatever
  \<open>p_drop_structure\<close>, the four tensors of an example whose structure is \<open>None\<close> are
  entirely zero.
\<close>

theorem StructureCollater_dropped_zero:
  fixes G :: "'f::zero gnn"
  assumes "StructureCollater_call G prep p_drop n_connections u batch
             = Inr (collated, nodes, edges, connections, edge_mask)"
  shows "(p_drop = 1 \<and> (\<forall>k. u k < 1) \<longrightarrow>
            nodes = replicate (length batch)
                      (replicate (Max (set (map (\<lambda>b. length (fst b)) batch)) + 1) (replicate 10 0))
          \<and> edges = replicate (length batch)
                      (replicate (Max (set (map (\<lambda>b. length (fst b)) batch)) + 1)
                         (replicate n_connections (replicate 6 0)))
          \<and> connections = replicate (length batch)
                      (replicate (Max (set (map (\<lambda>b. length (fst b)) batch)) + 1)
                         (replicate n_connections 0))
          \<and> edge_mask = replicate (length batch)
                      (replicate (Max (set (map (\<lambda>b. length (fst b)) batch)) + 1)
                         (replicate n_connections (replicate 1 0))))
       \<and> (\<forall>i<length batch. snd (batch ! i) = None \<longrightarrow>
            nodes ! i = replicate (Max (set (map (\<lambda>b. length (fst b)) batch)) + 1) (replicate 10 0)
          \<and> edges ! i = replicate (Max (set (map (\<lambda>b. length (fst b)) batch)) + 1)
                         (replicate n_connections (replicate 6 0))
          \<and> connections ! i = replicate (Max (set (map (\<lambda>b. length (fst b)) batch)) + 1)
                         (replicate n_connections 0)
          \<and> edge_mask ! i = replicate (Max (set (map (\<lambda>b. length (fst b)) batch)) + 1)
                         (replicate n_connections (replicate 1 0)))"
proof -
  let ?n = "length batch"
  let ?m = "Max (set (map (\<lambda>b. length (fst b)) batch)) + 1"
  let ?N = "replicate ?n (replicate ?m (replicate 10 (0::'f)))"
  let ?E = "replicate ?n (replicate ?m (replicate n_connections (replicate 6 (0::'f))))"
  let ?K = "replicate ?n (replicate ?m (replicate n_connections (0::int)))"
  let ?M = "replicate ?n (replicate ?m (replicate n_connections (replicate 1 (0::'f))))"
  let ?items = "zip (map length (map fst batch)) (map snd batch)"
  have loop: "structure_loop G p_drop n_connections u 0 ?items (?N, ?E, ?K, ?M)
                = Inr (nodes, edges, connections, edge_mask)"
    using assms
    by (auto simp: StructureCollater_call_def Let_def comp_def split: if_splits sum.splits)
  have all: "nodes = ?N \<and> edges = ?E \<and> connections = ?K \<and> edge_mask = ?M"
    if "p_drop = 1" "\<forall>k. u k < 1"
    using loop structure_loop_all_dropped[of u p_drop G n_connections 0 ?items "(?N, ?E, ?K, ?M)"]
      that by simp
  have one: "nodes ! i = replicate ?m (replicate 10 0)
           \<and> edges ! i = replicate ?m (replicate n_connections (replicate 6 0))
           \<and> connections ! i = replicate ?m (replicate n_connections 0)
           \<and> edge_mask ! i = replicate ?m (replicate n_connections (replicate 1 0))"
    if "i < ?n" "snd (batch ! i) = None" for i
  proof -
    have "snd (?items ! (i - 0)) = None" using that by simp
    then have "i < 0 \<or> 0 + length ?items \<le> i \<or> snd (?items ! (i - 0)) = None" by blast
    from structure_loop_untouched[OF loop this] that(1) show ?thesis by simp
  qed
  show ?thesis using all one by blast
qed


lemma StructureCollater_example_all_dropped:
  "StructureCollater_call example_gnn (\<lambda>ss. Inr ss) 1 3 (\<lambda>i. 1 / 2)
       [(''AC'', Some example_structure), (''A'', None)]
   = Inr ([''AC'', ''A''],
          replicate 2 (replicate 3 (replicate 10 0)),
          replicate 2 (replicate 3 (replicate 3 (replicate 6 0))),
          replicate 2 (replicate 3 (replicate 3 0)),
          replicate 2 (replicate 3 (replicate 3 (replicate 1 0))))"
  by code_simp

lemma StructureCollater_example_one_kept:
  "StructureCollater_call example_gnn (\<lambda>ss. Inr ss) (1 / 10) 3 (\<lambda>i. 1 / 2)
       [(''AC'', Some example_structure), (''A'', None)]
   = Inr ([''AC'', ''A''],
          [[replicate 10 0, replicate 10 7, replicate 10 7], replicate 3 (replicate 10 0)],
          [[replicate 3 (replicate 6 0),
            [replicate 6 5, replicate 6 5, replicate 6 0],
            [replicate 6 5, replicate 6 5, replicate 6 0]],
           replicate 3 (replicate 3 (replicate 6 0))],
          [[[0, 0, 0], [0, 1, 0], [0, 1, 0]], replicate 3 (replicate 3 0)],
          [[[[0], [0], [0]], [[1], [1], [0]], [[1], [1], [0]]],
           replicate 3 (replicate 3 (replicate 1 0))])"
  by code_simp

theorem StructureCollater_dropped_zero_witness:
  "StructureCollater_call example_gnn (\<lambda>ss. Inr ss) 1 3 (\<lambda>i. 1 / 2)
       [(''AC'', Some example_structure), (''A'', None)]
   = Inr ([''AC'', ''A''],
          replicate 2 (replicate 3 (replicate 10 0)),
          replicate 2 (replicate 3 (replicate 3 (replicate 6 0))),
          replicate 2 (replicate 3 (replicate 3 0)),
          replicate 2 (replicate 3 (replicate 3 (replicate 1 0))))
   \<and> (1 / 2 :: rat) < 1
   \<and> StructureCollater_call example_gnn (\<lambda>ss. Inr ss) (1 / 10) 3 (\<lambda>i. 1 / 2)
       [(''AC'', Some example_structure), (''A'', None)]
   = Inr ([''AC'', ''A''],
          [[replicate 10 0, replicate 10 7, replicate 10 7], replicate 3 (replicate 10 0)],
          [[replicate 3 (replicate 6 0),
            [replicate 6 5, replicate 6 5, replicate 6 0],
            [replicate 6 5, replicate 6 5, replicate 6 0]],
           replicate 3 (replicate 3 (replicate 6 0))],
          [[[0, 0, 0], [0, 1, 0], [0, 1, 0]], replicate 3 (replicate 3 0)],
          [[[[0], [0], [0]], [[1], [1], [0]], [[1], [1], [0]]],
           replicate 3 (replicate 3 (replicate 1 0))])
   \<and> snd ([(''AC'', Some example_structure), (''A'', None)] ! 1) = None
   \<and> [[replicate 10 0, replicate 10 7, replicate 10 7], replicate 3 (replicate 10 0)] ! 1
       = replicate 3 (replicate 10 (0::int))"
proof -
  let ?batch = "[(''AC'', Some example_structure), (''A'', None)]"
  have m: "Max (set (map (\<lambda>b. length (fst b)) ?batch)) + 1 = 3" by simp
  have none: "snd (?batch ! 1) = None" by simp
  have lt: "(1::nat) < length ?batch" by simp
  note A = StructureCollater_dropped_zero[OF StructureCollater_example_all_dropped, THEN conjunct1]
  note B = StructureCollater_dropped_zero[OF StructureCollater_example_one_kept, THEN conjunct2,
      rule_format, OF lt none, THEN conjunct1]
  have "[[replicate 10 0, replicate 10 7, replicate 10 7], replicate 3 (replicate 10 0)] ! 1
       = replicate 3 (replicate 10 (0::int))"
    using B unfolding m .
  then show ?thesis
    using StructureCollater_example_all_dropped StructureCollater_example_one_kept none A
    by simp
qed

end
